theory Spec2Isabelle
  imports Main "HOL-Library.Multiset" "HOL-Library.Product_Lexorder" "HOL-Library.Monad_Syntax"
begin

section \<open>Day 19: matching 3D point clouds under rotation and translation\<close>

text \<open>
  The notebook works on numpy arrays. An array of shape \<open>(n, 3)\<close> is a list of
  integer triples, an array of shape \<open>(k, 4, 4)\<close> a list of \<open>4 \<times> 4\<close> matrices given as
  lists of rows. The beacons are read as \<open>int16\<close>; the rotation table is \<open>int64\<close>
  (the sign array comes from \<open>np.array([-1, 1])\<close>), so every array computed from
  the beacons is \<open>int64\<close> and stays far from the wrap-around: numbers are \<open>int\<close>.
\<close>

type_synonym point = "int \<times> int \<times> int"
type_synonym matrix = "int list list"

subsection \<open>The rotation table: \<open>_rotations\<close>\<close>

text \<open>\<open>np.identity(n)\<close>.\<close>

definition identity :: "nat \<Rightarrow> matrix" where
  "identity n = map (\<lambda>r. map (\<lambda>c. if r = c then 1 else 0) [0..<n]) [0..<n]"

text \<open>
  \<open>itertools.permutations(xs)\<close>: every element in turn as the head, in the order of
  the input, followed by the permutations of the others.
\<close>

fun selections :: "'a list \<Rightarrow> ('a \<times> 'a list) list" where
  "selections [] = []"
| "selections (x # xs) = (x, xs) # map (\<lambda>(y, ys). (y, x # ys)) (selections xs)"

lemma selections_length:
  "(y, ys) \<in> set (selections xs) \<Longrightarrow> length ys < length xs"
  by (induction xs arbitrary: y ys) auto

function permutations :: "'a list \<Rightarrow> 'a list list" where
  "permutations xs =
     (if xs = [] then [[]]
      else concat (map (\<lambda>(y, ys). map (Cons y) (permutations ys)) (selections xs)))"
  by pat_completeness auto
termination
  by (relation "measure length") (auto dest: selections_length)

declare permutations.simps [simp del]

text \<open>\<open>np.pad(a, ((0, 0), (0, 1)), constant_values=v)\<close>: one more column, holding \<open>v\<close>.\<close>

definition pad_col :: "'a \<Rightarrow> 'a list list \<Rightarrow> 'a list list" where
  "pad_col v a = map (\<lambda>row. row @ [v]) a"

text \<open>
  \<open>np.stack(np.meshgrid(*([np.arange(2)] * 3)), axis=-1).reshape(-1, 3)\<close>: with the
  default \<open>xy\<close> indexing the entry at \<open>[i, j, k]\<close> of the three grids is
  \<open>(j, i, k)\<close>, and the reshape lists the entries with \<open>i\<close> slowest.
\<close>

definition meshgrid3 :: "nat list list" where
  "meshgrid3 = concat (map (\<lambda>i. concat (map (\<lambda>j. map (\<lambda>k. [j, i, k]) [0..<2]) [0..<2])) [0..<2])"

text \<open>\<open>np.tril_indices(3, -1)\<close>: the index pairs below the diagonal.\<close>

definition tril_indices :: "(nat \<times> nat) list" where
  "tril_indices = [(1, 0), (2, 0), (2, 1)]"

definition rowsparity :: "nat list \<Rightarrow> int" where
  "rowsparity row = prod_list (map (\<lambda>(tx, ty). sgn (int (row ! tx) - int (row ! ty))) tril_indices)"

definition signsparity :: "int list \<Rightarrow> int" where
  "signsparity s = prod_list (take 3 s)"

text \<open>
  The candidates: every sign row repeated for each permutation (\<open>np.repeat\<close>) beside
  the permutations tiled (\<open>np.tile\<close>); those of equal parity are kept, in order.
\<close>

definition sign_rows :: "(int list \<times> nat list) list" where
  "sign_rows =
     (let rows = pad_col 3 (permutations [0..<3]);
          signs = pad_col 1 (map (map (\<lambda>b. [-1, 1] ! b)) meshgrid3);
          signs' = concat (map (replicate (length rows)) signs);
          rows' = concat (replicate (length signs) rows)
      in filter (\<lambda>(s, r). rowsparity r = signsparity s) (zip signs' rows'))"

text \<open>
  \<open>(signs[:, :, None] * eye)[np.arange(count)[:, None], rows]\<close>: row \<open>r\<close> of the
  identity is multiplied by \<open>signs[r]\<close>, then row \<open>a\<close> of the result is row
  \<open>rows[a]\<close> of that product.
\<close>

definition rotation_of :: "int list \<times> nat list \<Rightarrow> matrix" where
  "rotation_of sr =
     (let signed = map (\<lambda>(s, e). map (\<lambda>x. s * x) e) (zip (fst sr) (identity 4))
      in map (\<lambda>a. signed ! a) (snd sr))"

definition ROTATIONS :: "matrix list" where
  "ROTATIONS = map rotation_of sign_rows"

definition NOR :: nat where
  "NOR = length ROTATIONS"

text \<open>The part of a table entry that acts on the three coordinates.\<close>

definition block3 :: "matrix \<Rightarrow> matrix" where
  "block3 m = map (take 3) (take 3 m)"

definition det3 :: "matrix \<Rightarrow> int" where
  "det3 m =
     m ! 0 ! 0 * (m ! 1 ! 1 * m ! 2 ! 2 - m ! 1 ! 2 * m ! 2 ! 1)
     - m ! 0 ! 1 * (m ! 1 ! 0 * m ! 2 ! 2 - m ! 1 ! 2 * m ! 2 ! 0)
     + m ! 0 ! 2 * (m ! 1 ! 0 * m ! 2 ! 1 - m ! 1 ! 1 * m ! 2 ! 0)"

definition column :: "matrix \<Rightarrow> nat \<Rightarrow> int list" where
  "column m c = map (\<lambda>row. row ! c) m"

definition one_nonzero :: "int list \<Rightarrow> bool" where
  "one_nonzero xs = (length (filter (\<lambda>x. x \<noteq> 0) xs) = 1)"

definition signed_permutation3 :: "matrix \<Rightarrow> bool" where
  "signed_permutation3 m =
     (length m = 3 \<and> list_all (\<lambda>row. length row = 3 \<and> list_all (\<lambda>x. x \<in> {-1, 0, 1}) row) m
      \<and> list_all one_nonzero m \<and> list_all (\<lambda>c. one_nonzero (column m c)) [0..<3])"

text \<open>A \<open>3 \<times> 3\<close> block in homogeneous form: a fourth row and column of the identity.\<close>

definition homogeneous :: "matrix \<Rightarrow> matrix" where
  "homogeneous m = pad_col 0 m @ [[0, 0, 0, 1]]"

subsection \<open>The scanner and its derived data\<close>

datatype error = StopIteration | KeyError | IndexError | ValueError

record Scanner =
  beacons :: "point list"
  position :: point

text \<open>
  \<open>Scanner.from_lines\<close>, the lines already parsed into rows of three integers (of two
  lines or more \<open>np.genfromtxt\<close> makes an array of shape \<open>(n, 3)\<close>): the scanner gets
  the default \<open>position\<close> of the dataclass, \<open>np.zeros(3)\<close>.
\<close>

definition from_lines :: "point list \<Rightarrow> Scanner" where
  "from_lines rows = \<lparr>beacons = rows, position = (0, 0, 0)\<rparr>"

definition vadd :: "point \<Rightarrow> point \<Rightarrow> point" where
  "vadd p q = (case p of (a, b, c) \<Rightarrow> case q of (d, e, f) \<Rightarrow> (a + d, b + e, c + f))"

definition vsub :: "point \<Rightarrow> point \<Rightarrow> point" where
  "vsub p q = (case p of (a, b, c) \<Rightarrow> case q of (d, e, f) \<Rightarrow> (a - d, b - e, c - f))"

text \<open>\<open>itertools.combinations(range(n), 2)\<close>, which is also the order of \<open>pdist\<close>.\<close>

definition combinations2 :: "nat \<Rightarrow> (nat \<times> nat) list" where
  "combinations2 n = concat (map (\<lambda>i. map (\<lambda>j. (i, j)) [Suc i..<n]) [0..<n])"

text \<open>
  \<open>pdist\<close> returns the Euclidean distances as \<open>float64\<close>. For coordinates below
  \<open>2^23\<close> in absolute value, as they are for \<open>int16\<close> input, the sum of the squared
  differences is exact in \<open>float64\<close> and the rounded square roots of two different such
  sums differ: two distances are the same dictionary key exactly when the squared
  distances are equal. The key is the squared distance.
\<close>

definition sqdist :: "point \<Rightarrow> point \<Rightarrow> int" where
  "sqdist p q = (case vsub p q of (a, b, c) \<Rightarrow> a * a + b * b + c * c)"

definition pdist :: "point list \<Rightarrow> int list" where
  "pdist bs = map (\<lambda>(i, j). sqdist (bs ! i) (bs ! j)) (combinations2 (length bs))"

text \<open>
  A Python \<open>set\<close> is the list of its elements in the order they were added. The order
  in which a set is iterated depends on the hashes and is an argument of the matcher.
  \<open>s.update(xs)\<close>:
\<close>

definition set_update :: "'a list \<Rightarrow> 'a list \<Rightarrow> 'a list" where
  "set_update s xs = foldl (\<lambda>s x. if x \<in> set s then s else s @ [x]) s xs"

text \<open>
  A \<open>dict\<close> is an association list in insertion order. One round of the loop of
  \<open>distances\<close>: \<open>map[dist].update(pair)\<close>, or on \<open>KeyError\<close> \<open>map[dist] = set(pair)\<close>.
\<close>

type_synonym distance_map = "(int \<times> nat list) list"

fun add_pair :: "distance_map \<Rightarrow> int \<times> nat \<times> nat \<Rightarrow> distance_map" where
  "add_pair m (dist, i, j) =
     (case map_of m dist of
        Some s \<Rightarrow> map (\<lambda>(d, t). if d = dist then (d, set_update t [i, j]) else (d, t)) m
      | None \<Rightarrow> m @ [(dist, set_update [] [i, j])])"

definition distances :: "point list \<Rightarrow> distance_map" where
  "distances bs = foldl add_pair [] (zip (pdist bs) (combinations2 (length bs)))"

definition ncols :: "matrix \<Rightarrow> nat" where
  "ncols m = (case m of [] \<Rightarrow> 0 | row # _ \<Rightarrow> length row)"

text \<open>A row vector times a matrix, \<open>v @ m\<close>.\<close>

definition vecmat :: "int list \<Rightarrow> matrix \<Rightarrow> int list" where
  "vecmat v m = map (\<lambda>c. sum_list (map (\<lambda>(x, row). x * row ! c) (zip v m))) [0..<ncols m]"

text \<open>One beacon under one table entry: pad with 1, multiply, drop the last column.\<close>

definition orient :: "matrix \<Rightarrow> point \<Rightarrow> point" where
  "orient m b =
     (case b of (x, y, z) \<Rightarrow>
        let r = butlast (vecmat [x, y, z, 1] m) in (r ! 0, r ! 1, r ! 2))"

text \<open>\<open>orientations\<close>, of shape \<open>(NOR, n, 3)\<close>.\<close>

definition orientations :: "point list \<Rightarrow> point list list" where
  "orientations bs = map (\<lambda>m. map (orient m) bs) ROTATIONS"

subsection \<open>The pairwise matcher: \<open>Scanner.__and__\<close>\<close>

definition MIN_BEACONS_IN_COMMON :: nat where
  "MIN_BEACONS_IN_COMMON = 12"

definition MIN_COMMON_DISTANCES :: nat where
  "MIN_COMMON_DISTANCES = MIN_BEACONS_IN_COMMON choose 2"

definition keys :: "distance_map \<Rightarrow> int list" where
  "keys m = map fst m"

text \<open>\<open>self.distances.keys() & other.distances.keys()\<close>.\<close>

definition shared_keys :: "distance_map \<Rightarrow> distance_map \<Rightarrow> int list" where
  "shared_keys sd od = filter (\<lambda>d. d \<in> set (keys od)) (keys sd)"

text \<open>\<open>m[d]\<close>.\<close>

definition getitem :: "distance_map \<Rightarrow> int \<Rightarrow> error + nat list" where
  "getitem m d = (case map_of m d of None \<Rightarrow> Inl KeyError | Some s \<Rightarrow> Inr s)"

text \<open>
  \<open>sum(len(self.distances[d]) // 2 for d in shared)\<close>; every \<open>d\<close> of \<open>shared\<close> is a
  key of \<open>self.distances\<close>.
\<close>

definition common_distances :: "distance_map \<Rightarrow> int list \<Rightarrow> nat" where
  "common_distances sd shared =
     sum_list (map (\<lambda>d. case map_of sd d of Some s \<Rightarrow> length s div 2 | None \<Rightarrow> 0) shared)"

definition index_of :: "'a list \<Rightarrow> 'a \<Rightarrow> nat" where
  "index_of xs x = length (takeWhile (\<lambda>y. y \<noteq> x) xs)"

text \<open>
  \<open>np.unique(rows, axis=0, return_inverse=True)\<close>: the different rows, sorted, and
  for every input row its index among them.
\<close>

definition np_unique :: "point list \<Rightarrow> point list \<times> nat list" where
  "np_unique rows = (let vals = sort (remdups rows) in (vals, map (index_of vals) rows))"

text \<open>
  The two sparse boolean matrices have one \<open>True\<close> per row, in the column of the row's
  index among the unique values. Entry \<open>[r, b]\<close> of the transposed product is \<open>True\<close>
  exactly when row \<open>b\<close> of \<open>obvmembers\<close> and row \<open>r\<close> of \<open>rvmembers\<close> have their
  \<open>True\<close> in the same column; the sum over the last axis counts these \<open>b\<close>.
\<close>

definition matches :: "nat list \<Rightarrow> nat list \<Rightarrow> nat list" where
  "matches ix_beacons ix_repos = map (\<lambda>r. length (filter (\<lambda>b. b = r) ix_beacons)) ix_repos"

text \<open>\<open>matches.reshape(-1, nsb).sum(axis=-1)\<close>, one sum for each of the \<open>NOR\<close> rows.\<close>

definition row_sums :: "nat \<Rightarrow> nat list \<Rightarrow> nat list" where
  "row_sums nsb ms = map (\<lambda>r. sum_list (take nsb (drop (r * nsb) ms))) [0..<length ms div nsb]"

text \<open>\<open>np.argmax\<close>: the first index of the maximum.\<close>

definition argmax :: "nat list \<Rightarrow> nat" where
  "argmax xs = index_of xs (Max (set xs))"

text \<open>
  \<open>offsets = reference - self.orientations[:, i]\<close> and
  \<open>repositioned = self.orientations + offsets[:, None, :]\<close>.
\<close>

definition offsets :: "point list \<Rightarrow> point \<Rightarrow> nat \<Rightarrow> point list" where
  "offsets sb reference i = map (\<lambda>ori. vsub reference (ori ! i)) (orientations sb)"

definition repositioned :: "point list \<Rightarrow> point \<Rightarrow> nat \<Rightarrow> point list list" where
  "repositioned sb reference i =
     map (\<lambda>(ori, off). map (\<lambda>p. vadd p off) ori) (zip (orientations sb) (offsets sb reference i))"

text \<open>The rows given to \<open>np.unique\<close>: \<open>other.beacons\<close> above \<open>repositioned.reshape(-1, 3)\<close>.\<close>

definition stacked :: "point list \<Rightarrow> point list \<Rightarrow> point \<Rightarrow> nat \<Rightarrow> point list" where
  "stacked sb ob reference i = ob @ concat (repositioned sb reference i)"

text \<open>\<open>counts\<close>, from the inverse index of \<open>np.unique\<close>.\<close>

definition counts :: "point list \<Rightarrow> point list \<Rightarrow> point \<Rightarrow> nat \<Rightarrow> nat list" where
  "counts sb ob reference i =
     (let nob = length ob; nsb = length sb;
          ix = snd (np_unique (stacked sb ob reference i));
          ix_beacons = take nob ix; ix_repos = drop nob ix
      in row_sums nsb (matches ix_beacons ix_repos))"

text \<open>The body of the loop over \<open>own_pairs\<close>; \<open>Inr None\<close> stands for \<open>continue\<close>.\<close>

definition try_anchor :: "point list \<Rightarrow> point list \<Rightarrow> point \<Rightarrow> nat \<Rightarrow> error + Scanner option" where
  "try_anchor sb ob reference i =
     (let nob = length ob; nsb = length sb; nsr = nsb * NOR
      in if nsb \<le> i then Inl IndexError
         else
           let vals = fst (np_unique (stacked sb ob reference i))
           in if int (length vals) > int nsr + int nob - 12 then Inr None
              else if \<not> list_ex (\<lambda>c. c \<ge> MIN_BEACONS_IN_COMMON) (counts sb ob reference i)
              then Inr None
              else
                let orientation = argmax (counts sb ob reference i);
                    new_beacons = repositioned sb reference i ! orientation;
                    new_pos = vsub reference (orientations sb ! orientation ! i)
                in Inr (Some \<lparr>beacons = new_beacons, position = new_pos\<rparr>))"

text \<open>The loop itself: the first anchor that gives a scanner ends it; falling off the end returns \<open>None\<close>.\<close>

fun anchors_loop :: "point list \<Rightarrow> point list \<Rightarrow> point \<Rightarrow> nat list \<Rightarrow> error + Scanner option" where
  "anchors_loop sb ob reference [] = Inr None"
| "anchors_loop sb ob reference (i # rest) =
     (case try_anchor sb ob reference i of
        Inl e \<Rightarrow> Inl e
      | Inr (Some s) \<Rightarrow> Inr (Some s)
      | Inr None \<Rightarrow> anchors_loop sb ob reference rest)"

text \<open>\<open>next(iter(s))\<close> for a set whose iteration order is \<open>xs\<close>.\<close>

definition next_iter :: "'a list \<Rightarrow> error + 'a" where
  "next_iter xs = (case xs of [] \<Rightarrow> Inl StopIteration | x # _ \<Rightarrow> Inr x)"

text \<open>
  The choice of the anchor: \<open>distance = next(iter(shared))\<close>,
  \<open>reference = other.beacons[next(iter(other.distances[distance]))]\<close> and
  \<open>own_pairs = self.distances[distance]\<close>, listed in the order of its iteration.
  \<open>key_iter\<close> and \<open>idx_iter\<close> give the order in which a set of distances and a set
  of indices are iterated.
\<close>

definition pick_reference ::
  "(int list \<Rightarrow> int list) \<Rightarrow> (nat list \<Rightarrow> nat list) \<Rightarrow> point list \<Rightarrow>
   distance_map \<Rightarrow> distance_map \<Rightarrow> int list \<Rightarrow> error + point \<times> nat list" where
  "pick_reference key_iter idx_iter ob sd od shared =
     (case next_iter (key_iter shared) of Inl e \<Rightarrow> Inl e
      | Inr distance \<Rightarrow>
      (case getitem od distance of Inl e \<Rightarrow> Inl e
       | Inr other_pairs \<Rightarrow>
       (case next_iter (idx_iter other_pairs) of Inl e \<Rightarrow> Inl e
        | Inr k \<Rightarrow>
          if length ob \<le> k then Inl IndexError
          else
            (case getitem sd distance of Inl e \<Rightarrow> Inl e
             | Inr own_pairs \<Rightarrow> Inr (ob ! k, idx_iter own_pairs)))))"

text \<open>\<open>self & other\<close>.\<close>

definition scanner_and ::
  "(int list \<Rightarrow> int list) \<Rightarrow> (nat list \<Rightarrow> nat list) \<Rightarrow> Scanner \<Rightarrow> Scanner \<Rightarrow> error + Scanner option" where
  "scanner_and key_iter idx_iter self other =
     (let sd = distances (beacons self); od = distances (beacons other);
          shared = shared_keys sd od
      in if common_distances sd shared < MIN_COMMON_DISTANCES then Inr None
         else
           case pick_reference key_iter idx_iter (beacons other) sd od shared of
             Inl e \<Rightarrow> Inl e
           | Inr (reference, own_pairs) \<Rightarrow>
               anchors_loop (beacons self) (beacons other) reference own_pairs)"

subsection \<open>The alignment driver: \<open>BeaconMap\<close>\<close>

record BeaconMap =
  scanners :: "Scanner list"

text \<open>\<open>BeaconMap.from_text\<close>, the text already split into blocks of parsed rows.\<close>

definition from_text :: "point list list \<Rightarrow> BeaconMap" where
  "from_text blocks = \<lparr>scanners = map from_lines blocks\<rparr>"

text \<open>
  \<open>for other in positioned: if placed := scanner & other: ... break\<close>: the first
  placed scanner that gives a match, in the order of the list. A \<open>Scanner\<close> object
  is always true.
\<close>

fun first_match ::
  "(int list \<Rightarrow> int list) \<Rightarrow> (nat list \<Rightarrow> nat list) \<Rightarrow> Scanner \<Rightarrow> Scanner list \<Rightarrow> error + Scanner option" where
  "first_match key_iter idx_iter scanner [] = Inr None"
| "first_match key_iter idx_iter scanner (other # rest) =
     (case scanner_and key_iter idx_iter scanner other of
        Inl e \<Rightarrow> Inl e
      | Inr (Some placed) \<Rightarrow> Inr (Some placed)
      | Inr None \<Rightarrow> first_match key_iter idx_iter scanner rest)"

text \<open>
  \<open>while to_position: ...\<close>. The loop has no bound: \<open>None\<close> is a run that never
  returns, \<open>Some (Inl e)\<close> one that raises, \<open>Some (Inr positioned)\<close> the return.
\<close>

partial_function (option) position_loop ::
  "(int list \<Rightarrow> int list) \<Rightarrow> (nat list \<Rightarrow> nat list) \<Rightarrow> Scanner list \<Rightarrow> Scanner list \<Rightarrow>
   (error + Scanner list) option" where
  "position_loop key_iter idx_iter to_position positioned =
     (case to_position of
        [] \<Rightarrow> Some (Inr positioned)
      | scanner # rest \<Rightarrow>
          (case first_match key_iter idx_iter scanner positioned of
             Inl e \<Rightarrow> Some (Inl e)
           | Inr (Some placed) \<Rightarrow> position_loop key_iter idx_iter rest (positioned @ [placed])
           | Inr None \<Rightarrow> position_loop key_iter idx_iter (rest @ [scanner]) positioned))"

text \<open>\<open>positioned_scanners\<close>; \<open>popleft\<close> on an empty deque raises \<open>IndexError\<close>.\<close>

definition positioned_scanners ::
  "(int list \<Rightarrow> int list) \<Rightarrow> (nat list \<Rightarrow> nat list) \<Rightarrow> BeaconMap \<Rightarrow> (error + Scanner list) option" where
  "positioned_scanners key_iter idx_iter bm =
     (case scanners bm of
        [] \<Rightarrow> Some (Inl IndexError)
      | first # to_position \<Rightarrow> position_loop key_iter idx_iter to_position [first])"

subsection \<open>The summary\<close>

text \<open>\<open>{pos for s in positioned for pos in zip(*s.beacons.T)}\<close>.\<close>

definition beacon_set :: "Scanner list \<Rightarrow> point set" where
  "beacon_set positioned = set (concat (map beacons positioned))"

definition positioned_beacons ::
  "(int list \<Rightarrow> int list) \<Rightarrow> (nat list \<Rightarrow> nat list) \<Rightarrow> BeaconMap \<Rightarrow> (error + point set) option" where
  "positioned_beacons key_iter idx_iter bm =
     map_option (map_sum id beacon_set) (positioned_scanners key_iter idx_iter bm)"

definition cityblock :: "point \<Rightarrow> point \<Rightarrow> int" where
  "cityblock p q = (case vsub p q of (a, b, c) \<Rightarrow> \<bar>a\<bar> + \<bar>b\<bar> + \<bar>c\<bar>)"

text \<open>\<open>pdist(X, "cityblock")\<close> for \<open>X\<close> of shape \<open>(n, 3)\<close>; the values are whole numbers.\<close>

definition pdist_cityblock :: "point list \<Rightarrow> int list" where
  "pdist_cityblock ps = map (\<lambda>(i, j). cityblock (ps ! i) (ps ! j)) (combinations2 (length ps))"

text \<open>\<open>a.max()\<close>, which raises \<open>ValueError\<close> on an empty array.\<close>

definition array_max :: "int list \<Rightarrow> error + int" where
  "array_max a = (case a of [] \<Rightarrow> Inl ValueError | x # xs \<Rightarrow> Inr (fold max xs x))"

text \<open>
  \<open>max_distance\<close>. Of an empty list \<open>np.array\<close> makes an array of one dimension,
  which \<open>pdist\<close> refuses with \<open>ValueError\<close>.
\<close>

definition max_distance :: "Scanner list \<Rightarrow> error + int" where
  "max_distance scs =
     (if scs = [] then Inl ValueError else array_max (pdist_cityblock (map position scs)))"

subsection \<open>The matcher on a store of arrays\<close>

text \<open>
  The contents of a buffer, by shape: \<open>(3,)\<close>, \<open>(n, 3)\<close>, \<open>(k, n, 3)\<close>, \<open>(n, c)\<close>,
  \<open>(k, n, 4)\<close>, the distances of \<open>pdist\<close>, an array of indices or counts, and a
  sparse boolean matrix.
\<close>

type_synonym addr = nat

datatype ndarray =
    Vec point
  | Rows "point list"
  | Blocks "point list list"
  | Padded "int list list"
  | Turned "int list list list"
  | Dists "int list"
  | Index "nat list"
  | Sparse "bool list list"

text \<open>
  An array object is a buffer seen through a chain of basic indexing, which makes
  views and copies nothing: \<open>a[k]\<close>, \<open>a[:, i]\<close> and \<open>a[..., :-1]\<close>. Two array
  objects with the same buffer share their memory.
\<close>

datatype view = Item nat | Column nat | Unpad

record aref =
  buffer :: addr
  views :: "view list"

text \<open>
  A scanner object has the two fields of the dataclass and the two entries a
  \<open>cached_property\<close> adds to it at its first use.
\<close>

record ScannerObj =
  beacons_ref :: aref
  position_ref :: aref
  distances_cache :: "distance_map option"
  orientations_cache :: "aref option"

text \<open>
  The store: the buffers and the scanner objects in use, all at addresses below
  \<open>limit\<close>; a new buffer or object gets the address \<open>limit\<close>.
\<close>

record heap =
  arrays :: "addr \<Rightarrow> ndarray option"
  objects :: "addr \<Rightarrow> ScannerObj option"
  limit :: addr

fun select :: "view \<Rightarrow> ndarray \<Rightarrow> ndarray option" where
  "select (Item k) (Rows ps) = (if k < length ps then Some (Vec (ps ! k)) else None)"
| "select (Item k) (Blocks bs) = (if k < length bs then Some (Rows (bs ! k)) else None)"
| "select (Column i) (Blocks bs) =
     (if list_all (\<lambda>b. i < length b) bs then Some (Rows (map (\<lambda>b. b ! i) bs)) else None)"
| "select Unpad (Turned t) =
     Some (Blocks (map (map (\<lambda>row. let r = butlast row in (r ! 0, r ! 1, r ! 2))) t))"
| "select _ _ = None"

text \<open>Reading an array object: the buffer as it is now, through the views.\<close>

definition deref :: "heap \<Rightarrow> aref \<Rightarrow> ndarray option" where
  "deref h r = fold (\<lambda>v a. Option.bind a (select v)) (views r) (arrays h (buffer r))"

definition view_of :: "aref \<Rightarrow> view \<Rightarrow> aref" where
  "view_of r v = r\<lparr>views := views r @ [v]\<rparr>"

text \<open>A new array, in a new buffer.\<close>

definition np_new :: "heap \<Rightarrow> ndarray \<Rightarrow> aref \<times> heap" where
  "np_new h a =
     (\<lparr>buffer = limit h, views = []\<rparr>,
      h\<lparr>arrays := (arrays h)(limit h \<mapsto> a), limit := Suc (limit h)\<rparr>)"

text \<open>
  An array expression of one or two operands reads them and returns a new array.
  \<open>None\<close> is an operand that is not in the store or not of the shape the operation takes.
\<close>

definition np_op1 :: "(ndarray \<Rightarrow> ndarray option) \<Rightarrow> heap \<Rightarrow> aref \<Rightarrow> (aref \<times> heap) option" where
  "np_op1 f h a = do { v \<leftarrow> deref h a; x \<leftarrow> f v; Some (np_new h x) }"

definition np_op2 ::
  "(ndarray \<Rightarrow> ndarray \<Rightarrow> ndarray option) \<Rightarrow> heap \<Rightarrow> aref \<Rightarrow> aref \<Rightarrow> (aref \<times> heap) option" where
  "np_op2 f h a b = do { v \<leftarrow> deref h a; w \<leftarrow> deref h b; x \<leftarrow> f v w; Some (np_new h x) }"

text \<open>
  \<open>m[rows, cols] = True\<close> for a \<open>lil_matrix\<close> \<open>m\<close>: the one operation of the
  method that writes into an existing buffer, the buffer of \<open>m\<close>.
\<close>

definition lil_assign :: "heap \<Rightarrow> aref \<Rightarrow> (nat \<times> nat) list \<Rightarrow> heap option" where
  "lil_assign h m entries =
     (case (views m, arrays h (buffer m)) of
        ([], Some (Sparse rows)) \<Rightarrow>
          Some (h\<lparr>arrays := (arrays h)
                   (buffer m \<mapsto> Sparse (foldl (\<lambda>t (i, j). t[i := (t ! i)[j := True]]) rows entries))\<rparr>)
      | _ \<Rightarrow> None)"

text \<open>\<open>Scanner(beacons, position)\<close>: a new object that holds the two array objects given.\<close>

definition new_scanner :: "heap \<Rightarrow> aref \<Rightarrow> aref \<Rightarrow> addr \<times> heap" where
  "new_scanner h b p =
     (limit h,
      h\<lparr>objects := (objects h)
           (limit h \<mapsto> \<lparr>beacons_ref = b, position_ref = p,
                         distances_cache = None, orientations_cache = None\<rparr>),
        limit := Suc (limit h)\<rparr>)"

text \<open>The array expressions of the scanner, on the contents of their operands.\<close>

fun np_pdist :: "ndarray \<Rightarrow> ndarray option" where
  "np_pdist (Rows bs) = Some (Dists (pdist bs))"
| "np_pdist _ = None"

text \<open>\<open>np.ones((*b.shape[:-1], 1))\<close> and \<open>np.concatenate((b, ones), axis=-1)\<close>.\<close>

fun np_ones :: "ndarray \<Rightarrow> ndarray option" where
  "np_ones (Rows b) = Some (Padded (map (\<lambda>_. [1]) b))"
| "np_ones _ = None"

fun np_concatenate :: "ndarray \<Rightarrow> ndarray \<Rightarrow> ndarray option" where
  "np_concatenate (Rows b) (Padded c) =
     (if length b = length c
      then Some (Padded (map (\<lambda>((x, y, z), row). [x, y, z] @ row) (zip b c))) else None)"
| "np_concatenate _ _ = None"

text \<open>\<open>aug @ ROTATIONS\<close>, of shape \<open>(NOR, n, 4)\<close>.\<close>

fun np_matmul_rotations :: "ndarray \<Rightarrow> ndarray option" where
  "np_matmul_rotations (Padded aug) = Some (Turned (map (\<lambda>m. map (\<lambda>row. vecmat row m) aug) ROTATIONS))"
| "np_matmul_rotations _ = None"

text \<open>\<open>reference - a\<close>, the vector \<open>reference\<close> broadcast over the rows of \<open>a\<close>.\<close>

fun np_subtract :: "ndarray \<Rightarrow> ndarray \<Rightarrow> ndarray option" where
  "np_subtract (Vec r) (Rows c) = Some (Rows (map (vsub r) c))"
| "np_subtract (Vec r) (Vec q) = Some (Vec (vsub r q))"
| "np_subtract _ _ = None"

text \<open>\<open>a + offsets[:, None, :]\<close>: row \<open>k\<close> of \<open>offsets\<close> added to every point of block \<open>k\<close>.\<close>

fun np_add :: "ndarray \<Rightarrow> ndarray \<Rightarrow> ndarray option" where
  "np_add (Blocks a) (Rows offs) =
     (if length a = length offs
      then Some (Blocks (map (\<lambda>(ori, off). map (\<lambda>p. vadd p off) ori) (zip a offs))) else None)"
| "np_add _ _ = None"

text \<open>\<open>np.vstack((b, a.reshape(-1, 3)))\<close>.\<close>

fun np_vstack :: "ndarray \<Rightarrow> ndarray \<Rightarrow> ndarray option" where
  "np_vstack (Rows b) (Blocks a) = Some (Rows (b @ concat a))"
| "np_vstack _ _ = None"

text \<open>The two arrays \<open>np.unique(a, axis=0, return_inverse=True)\<close> returns.\<close>

fun np_unique_values :: "ndarray \<Rightarrow> ndarray option" where
  "np_unique_values (Rows a) = Some (Rows (fst (np_unique a)))"
| "np_unique_values _ = None"

fun np_unique_inverse :: "ndarray \<Rightarrow> ndarray option" where
  "np_unique_inverse (Rows a) = Some (Index (snd (np_unique a)))"
| "np_unique_inverse _ = None"

text \<open>
  \<open>(obv.tocsr() @ rv.tocsr().T).T.sum(axis=-1)\<close>: entry \<open>[b, r]\<close> of the boolean
  product is \<open>True\<close> when row \<open>b\<close> of \<open>obv\<close> and row \<open>r\<close> of \<open>rv\<close> have a \<open>True\<close> in
  the same column; the sum counts, for every \<open>r\<close>, the rows \<open>b\<close> with \<open>True\<close>.
\<close>

fun np_sparse_matches :: "ndarray \<Rightarrow> ndarray \<Rightarrow> ndarray option" where
  "np_sparse_matches (Sparse obv) (Sparse rv) =
     Some (Index (map (\<lambda>r. length (filter (\<lambda>b. list_ex (\<lambda>(x, y). x \<and> y) (zip b r)) obv)) rv))"
| "np_sparse_matches _ _ = None"

text \<open>\<open>matches.reshape(-1, nsb).sum(axis=-1)\<close>.\<close>

fun np_reshape_sum :: "nat \<Rightarrow> ndarray \<Rightarrow> ndarray option" where
  "np_reshape_sum nsb (Index ms) = Some (Index (row_sums nsb ms))"
| "np_reshape_sum nsb _ = None"

definition read_rows :: "heap \<Rightarrow> aref \<Rightarrow> point list option" where
  "read_rows h r = (case deref h r of Some (Rows ps) \<Rightarrow> Some ps | _ \<Rightarrow> None)"

definition read_index :: "heap \<Rightarrow> aref \<Rightarrow> nat list option" where
  "read_index h r = (case deref h r of Some (Index ns) \<Rightarrow> Some ns | _ \<Rightarrow> None)"

text \<open>
  The property \<open>distances\<close> of the object at \<open>self\<close>: the cached dictionary, or at
  the first use the dictionary built from the new array \<open>pdist(self.beacons)\<close>, which
  is then stored in the object.
\<close>

definition distances_obj :: "heap \<Rightarrow> addr \<Rightarrow> (distance_map \<times> heap) option" where
  "distances_obj h self =
     do {
       obj \<leftarrow> objects h self;
       case distances_cache obj of
         Some d \<Rightarrow> Some (d, h)
       | None \<Rightarrow>
           do {
             b \<leftarrow> read_rows h (beacons_ref obj);
             (pd, h1) \<leftarrow> np_op1 np_pdist h (beacons_ref obj);
             ds \<leftarrow> (case deref h1 pd of Some (Dists ds) \<Rightarrow> Some ds | _ \<Rightarrow> None);
             let d = foldl add_pair [] (zip ds (combinations2 (length b)));
             Some (d, h1\<lparr>objects := (objects h1)(self \<mapsto> obj\<lparr>distances_cache := Some d\<rparr>)\<rparr>)
           }
     }"

text \<open>
  The property \<open>orientations\<close>: the cached array object, or at the first use the view
  \<open>(aug @ ROTATIONS)[..., :-1]\<close> of a new array, which is then stored in the object.
\<close>

definition orientations_obj :: "heap \<Rightarrow> addr \<Rightarrow> (aref \<times> heap) option" where
  "orientations_obj h self =
     do {
       obj \<leftarrow> objects h self;
       case orientations_cache obj of
         Some r \<Rightarrow> Some (r, h)
       | None \<Rightarrow>
           do {
             (ones, h1) \<leftarrow> np_op1 np_ones h (beacons_ref obj);
             (aug, h2) \<leftarrow> np_op2 np_concatenate h1 (beacons_ref obj) ones;
             (turned, h3) \<leftarrow> np_op1 np_matmul_rotations h2 aug;
             let r = view_of turned Unpad;
             Some (r, h3\<lparr>objects := (objects h3)(self \<mapsto> obj\<lparr>orientations_cache := Some r\<rparr>)\<rparr>)
           }
     }"

text \<open>\<open>np.unique(a, axis=0, return_inverse=True)\<close>: two new arrays.\<close>

definition np_unique_obj :: "heap \<Rightarrow> aref \<Rightarrow> (aref \<times> aref \<times> heap) option" where
  "np_unique_obj h a =
     do {
       (vals, h1) \<leftarrow> np_op1 np_unique_values h a;
       (ix, h2) \<leftarrow> np_op1 np_unique_inverse h1 a;
       Some (vals, ix, h2)
     }"

text \<open>
  The body of the loop over \<open>own_pairs\<close> on the store, statement by statement.
  \<open>self.orientations\<close> is read at the head of the body; the later uses in the body
  find the same array object in the cache. \<open>ix[:nob]\<close> and \<open>ix[nob:]\<close> are read
  at once, and \<open>np.arange\<close>, \<open>tocsr\<close> and the comparison \<open>counts >= 12\<close> make
  arrays of their own that nothing else sees. \<open>Inr None\<close> stands for \<open>continue\<close>.
\<close>

definition try_anchor_obj ::
  "heap \<Rightarrow> addr \<Rightarrow> addr \<Rightarrow> aref \<Rightarrow> nat \<Rightarrow> nat \<Rightarrow> nat \<Rightarrow> ((error + addr option) \<times> heap) option" where
  "try_anchor_obj h self other reference nob nsb i =
     do {
       (oriented, h1) \<leftarrow> orientations_obj h self;
       if nsb \<le> i then Some (Inl IndexError, h1)
       else do {
         (offs, h2) \<leftarrow> np_op2 np_subtract h1 reference (view_of oriented (Column i));
         (rep, h3) \<leftarrow> np_op2 np_add h2 oriented offs;
         other_obj \<leftarrow> objects h3 other;
         (stack, h4) \<leftarrow> np_op2 np_vstack h3 (beacons_ref other_obj) rep;
         (vals, ix, h5) \<leftarrow> np_unique_obj h4 stack;
         uniq \<leftarrow> read_rows h5 vals;
         if int (length uniq) > int (nsb * NOR) + int nob - 12 then Some (Inr None, h5)
         else do {
           inverse \<leftarrow> read_index h5 ix;
           let (obvmembers, h6) = np_new h5 (Sparse (replicate nob (replicate (length uniq) False)));
           h7 \<leftarrow> lil_assign h6 obvmembers (zip [0..<nob] (take nob inverse));
           let (rvmembers, h8) =
             np_new h7 (Sparse (replicate (nsb * NOR) (replicate (length uniq) False)));
           h9 \<leftarrow> lil_assign h8 rvmembers (zip [0..<nsb * NOR] (drop nob inverse));
           (ms, h10) \<leftarrow> np_op2 np_sparse_matches h9 obvmembers rvmembers;
           (cnt, h11) \<leftarrow> np_op1 (np_reshape_sum nsb) h10 ms;
           cs \<leftarrow> read_index h11 cnt;
           if \<not> list_ex (\<lambda>c. c \<ge> MIN_BEACONS_IN_COMMON) cs then Some (Inr None, h11)
           else do {
             let orientation = argmax cs;
             let new_beacons = view_of rep (Item orientation);
             (new_pos, h12) \<leftarrow>
               np_op2 np_subtract h11 reference (view_of (view_of oriented (Item orientation)) (Item i));
             let (placed, h13) = new_scanner h12 new_beacons new_pos;
             Some (Inr (Some placed), h13)
           }
         }
       }
     }"

text \<open>The loop: every round goes on in the store the round before has left.\<close>

fun anchors_loop_obj ::
  "heap \<Rightarrow> addr \<Rightarrow> addr \<Rightarrow> aref \<Rightarrow> nat \<Rightarrow> nat \<Rightarrow> nat list \<Rightarrow> ((error + addr option) \<times> heap) option" where
  "anchors_loop_obj h self other reference nob nsb [] = Some (Inr None, h)"
| "anchors_loop_obj h self other reference nob nsb (i # rest) =
     (case try_anchor_obj h self other reference nob nsb i of
        None \<Rightarrow> None
      | Some (Inl e, h') \<Rightarrow> Some (Inl e, h')
      | Some (Inr (Some placed), h') \<Rightarrow> Some (Inr (Some placed), h')
      | Some (Inr None, h') \<Rightarrow> anchors_loop_obj h' self other reference nob nsb rest)"

text \<open>
  \<open>self & other\<close> for the objects at the addresses \<open>self\<close> and \<open>other\<close>. The two
  dictionaries are read at their first use; the later uses find them in the cache.
  \<open>reference\<close> is the view \<open>other.beacons[k]\<close>. The result is the address of the
  new scanner, \<open>None\<close> or an error, with the store the call leaves.
\<close>

definition scanner_and_obj ::
  "(int list \<Rightarrow> int list) \<Rightarrow> (nat list \<Rightarrow> nat list) \<Rightarrow> heap \<Rightarrow> addr \<Rightarrow> addr \<Rightarrow>
   ((error + addr option) \<times> heap) option" where
  "scanner_and_obj key_iter idx_iter h self other =
     do {
       (sd, h1) \<leftarrow> distances_obj h self;
       (od, h2) \<leftarrow> distances_obj h1 other;
       let shared = shared_keys sd od;
       if common_distances sd shared < MIN_COMMON_DISTANCES then Some (Inr None, h2)
       else do {
         other_obj \<leftarrow> objects h2 other;
         self_obj \<leftarrow> objects h2 self;
         ob \<leftarrow> read_rows h2 (beacons_ref other_obj);
         sb \<leftarrow> read_rows h2 (beacons_ref self_obj);
         let nob = length ob;
         let nsb = length sb;
         case next_iter (key_iter shared) of
           Inl e \<Rightarrow> Some (Inl e, h2)
         | Inr distance \<Rightarrow>
             (case getitem od distance of
                Inl e \<Rightarrow> Some (Inl e, h2)
              | Inr other_pairs \<Rightarrow>
                  (case next_iter (idx_iter other_pairs) of
                     Inl e \<Rightarrow> Some (Inl e, h2)
                   | Inr k \<Rightarrow>
                       if nob \<le> k then Some (Inl IndexError, h2)
                       else
                         let reference = view_of (beacons_ref other_obj) (Item k)
                         in (case getitem sd distance of
                               Inl e \<Rightarrow> Some (Inl e, h2)
                             | Inr own_pairs \<Rightarrow>
                                 anchors_loop_obj h2 self other reference nob nsb
                                   (idx_iter own_pairs))))
       }
     }"

subsection \<open>Derived notions\<close>

text \<open>The 24 images of a point, in the order of the table.\<close>

definition turns :: "point \<Rightarrow> point list" where
  "turns p = (case p of (x, y, z) \<Rightarrow>
    [(- x, - z, - y), (- y, - x, - z), (- z, - y, - x), (- x, - y, z), (- z, - x, y), (- y, - z, x),
     (x, - y, - z), (z, - x, - y), (y, - z, - x), (x, - z, y), (y, - x, z), (z, - y, x),
     (- x, y, - z), (- z, x, - y), (- y, z, - x), (- x, z, y), (- y, x, z), (- z, y, x),
     (x, z, - y), (y, x, - z), (z, y, - x), (x, y, z), (z, x, y), (y, z, x)])"

text \<open>
  The number of pairs of a row of \<open>ob\<close> and a row of \<open>cloud\<close> that are equal; for
  clouds without repeated points, the number of points they have in common.
\<close>

definition hits :: "point list \<Rightarrow> point list \<Rightarrow> nat" where
  "hits ob cloud = sum_list (map (count_list ob) cloud)"

text \<open>An iteration order lists the elements of the set it iterates.\<close>

definition iterates :: "('a list \<Rightarrow> 'a list) \<Rightarrow> bool" where
  "iterates it = (\<forall>xs. set (it xs) = set xs)"

text \<open>A cloud under a table entry and a translation.\<close>

definition moved :: "matrix \<Rightarrow> point \<Rightarrow> point list \<Rightarrow> point list" where
  "moved m t bs = map (\<lambda>p. vadd (orient m p) t) bs"

text \<open>The parts of a call \<open>self & other\<close>.\<close>

abbreviation shared_of :: "Scanner \<Rightarrow> Scanner \<Rightarrow> int list" where
  "shared_of self other \<equiv> shared_keys (distances (beacons self)) (distances (beacons other))"

abbreviation common_of :: "Scanner \<Rightarrow> Scanner \<Rightarrow> nat" where
  "common_of self other \<equiv> common_distances (distances (beacons self)) (shared_of self other)"

abbreviation reference_of ::
  "(int list \<Rightarrow> int list) \<Rightarrow> (nat list \<Rightarrow> nat list) \<Rightarrow> Scanner \<Rightarrow> Scanner \<Rightarrow> error + point \<times> nat list" where
  "reference_of key_iter idx_iter self other \<equiv>
     pick_reference key_iter idx_iter (beacons other) (distances (beacons self))
       (distances (beacons other)) (shared_of self other)"

subsection \<open>Example clouds\<close>

text \<open>
  Twelve points whose 66 distances are all different, the first two at the squared
  distance 2; the same points as a scanner at \<open>(20, -7, 3)\<close> turned by entry 4 of the
  table reports them, the first two exchanged; and the twelve points after two more,
  which are at the squared distance 2 as well.
\<close>

definition cloud_a :: "point list" where
  "cloud_a = [(9, 0, 0), (8, 0, 1), (5, 0, 2), (9, 6, 3), (2, 0, 6), (0, 5, 5),
              (5, 2, 4), (8, 9, 1), (0, 8, 8), (3, 0, 8), (3, 8, 1), (9, 8, 0)]"

definition cloud_b :: "point list" where
  "cloud_b = [(- 7, - 2, 12), (- 7, - 3, 11), (- 7, - 1, 15), (- 13, 0, 11), (- 7, 3, 18),
              (- 12, 2, 20), (- 9, 1, 15), (- 16, - 2, 12), (- 15, 5, 20), (- 7, 5, 17),
              (- 15, - 2, 17), (- 15, - 3, 11)]"

definition cloud_f :: "point list" where
  "cloud_f = (20, 20, 20) # (21, 20, 21) # cloud_a"

subsection \<open>Derived notions for the store\<close>

text \<open>The scanner an object stands for: its two arrays as they are in the store.\<close>

definition load :: "heap \<Rightarrow> addr \<Rightarrow> Scanner option" where
  "load h x =
     do {
       obj \<leftarrow> objects h x;
       case (deref h (beacons_ref obj), deref h (position_ref obj)) of
         (Some (Rows bs), Some (Vec p)) \<Rightarrow> Some \<lparr>beacons = bs, position = p\<rparr>
       | _ \<Rightarrow> None
     }"

text \<open>
  What holds of a store between two calls: the addresses in use are below the limit,
  every object is a scanner, and what an object has cached is what the property
  computes from the object's \<open>beacons\<close>.
\<close>

definition cache_ok :: "heap \<Rightarrow> ScannerObj \<Rightarrow> bool" where
  "cache_ok h obj =
     (case deref h (beacons_ref obj) of
        Some (Rows bs) \<Rightarrow>
          (case distances_cache obj of None \<Rightarrow> True | Some d \<Rightarrow> d = distances bs)
          \<and> (case orientations_cache obj of
                None \<Rightarrow> True
              | Some r \<Rightarrow> deref h r = Some (Blocks (orientations bs)))
      | _ \<Rightarrow> False)"

definition wf_heap :: "heap \<Rightarrow> bool" where
  "wf_heap h =
     ((\<forall>a. arrays h a \<noteq> None \<longrightarrow> a < limit h)
      \<and> (\<forall>x. objects h x \<noteq> None \<longrightarrow> x < limit h)
      \<and> (\<forall>x obj. objects h x = Some obj \<longrightarrow>
            cache_ok h obj \<and> (\<exists>p. deref h (position_ref obj) = Some (Vec p))))"

text \<open>
  The store \<open>h'\<close> keeps what the store \<open>h\<close> has: every buffer of \<open>h\<close> has the same
  contents and every object of \<open>h\<close> holds the same two array objects.
\<close>

definition keeps :: "heap \<Rightarrow> heap \<Rightarrow> bool" where
  "keeps h h' =
     (limit h \<le> limit h'
      \<and> (\<forall>a < limit h. arrays h' a = arrays h a)
      \<and> (\<forall>x < limit h.
            rel_option (\<lambda>obj obj'. beacons_ref obj' = beacons_ref obj
                                  \<and> position_ref obj' = position_ref obj)
              (objects h x) (objects h' x)))"

text \<open>
  The result \<open>res\<close> of a call on the store \<open>h\<close>, which leaves the store \<open>h'\<close>, is
  the result \<open>pure\<close> of the matcher on the scanners the objects stand for: the same
  error, \<open>None\<close> for \<open>None\<close>, and for a scanner a new object whose two arrays are in
  new buffers and hold that scanner.
\<close>

definition answers :: "heap \<Rightarrow> heap \<Rightarrow> error + addr option \<Rightarrow> error + Scanner option \<Rightarrow> bool" where
  "answers h h' res pure =
     (case pure of
        Inl e \<Rightarrow> res = Inl e
      | Inr None \<Rightarrow> res = Inr None
      | Inr (Some v) \<Rightarrow>
          (case res of
             Inr (Some x) \<Rightarrow>
               limit h \<le> x \<and> load h' x = Some v
               \<and> (case objects h' x of
                     Some obj \<Rightarrow> limit h \<le> buffer (beacons_ref obj)
                                 \<and> limit h \<le> buffer (position_ref obj)
                   | None \<Rightarrow> False)
           | _ \<Rightarrow> False))"

text \<open>
  A store with the scanners of \<open>cloud_b\<close>, at the address 3, and of \<open>cloud_a\<close>, at
  the address 4, before any property of them is read. Both have the default position,
  which is one array shared by every scanner made without a position.
\<close>

definition heap_ab :: heap where
  "heap_ab =
     \<lparr>arrays = [0 \<mapsto> Rows cloud_b, 1 \<mapsto> Vec (0, 0, 0), 2 \<mapsto> Rows cloud_a],
      objects =
        [3 \<mapsto> \<lparr>beacons_ref = \<lparr>buffer = 0, views = []\<rparr>, position_ref = \<lparr>buffer = 1, views = []\<rparr>,
                 distances_cache = None, orientations_cache = None\<rparr>,
         4 \<mapsto> \<lparr>beacons_ref = \<lparr>buffer = 2, views = []\<rparr>, position_ref = \<lparr>buffer = 1, views = []\<rparr>,
                 distances_cache = None, orientations_cache = None\<rparr>],
      limit = 5\<rparr>"

section \<open>The rotation table\<close>

lemma ROTATIONS_eq: "ROTATIONS =
 [[[- 1, 0, 0, 0], [0, 0, - 1, 0], [0, - 1, 0, 0], [0, 0, 0, 1]],
  [[0, - 1, 0, 0], [- 1, 0, 0, 0], [0, 0, - 1, 0], [0, 0, 0, 1]],
  [[0, 0, - 1, 0], [0, - 1, 0, 0], [- 1, 0, 0, 0], [0, 0, 0, 1]],
  [[- 1, 0, 0, 0], [0, - 1, 0, 0], [0, 0, 1, 0], [0, 0, 0, 1]],
  [[0, - 1, 0, 0], [0, 0, 1, 0], [- 1, 0, 0, 0], [0, 0, 0, 1]],
  [[0, 0, 1, 0], [- 1, 0, 0, 0], [0, - 1, 0, 0], [0, 0, 0, 1]],
  [[1, 0, 0, 0], [0, - 1, 0, 0], [0, 0, - 1, 0], [0, 0, 0, 1]],
  [[0, - 1, 0, 0], [0, 0, - 1, 0], [1, 0, 0, 0], [0, 0, 0, 1]],
  [[0, 0, - 1, 0], [1, 0, 0, 0], [0, - 1, 0, 0], [0, 0, 0, 1]],
  [[1, 0, 0, 0], [0, 0, 1, 0], [0, - 1, 0, 0], [0, 0, 0, 1]],
  [[0, - 1, 0, 0], [1, 0, 0, 0], [0, 0, 1, 0], [0, 0, 0, 1]],
  [[0, 0, 1, 0], [0, - 1, 0, 0], [1, 0, 0, 0], [0, 0, 0, 1]],
  [[- 1, 0, 0, 0], [0, 1, 0, 0], [0, 0, - 1, 0], [0, 0, 0, 1]],
  [[0, 1, 0, 0], [0, 0, - 1, 0], [- 1, 0, 0, 0], [0, 0, 0, 1]],
  [[0, 0, - 1, 0], [- 1, 0, 0, 0], [0, 1, 0, 0], [0, 0, 0, 1]],
  [[- 1, 0, 0, 0], [0, 0, 1, 0], [0, 1, 0, 0], [0, 0, 0, 1]],
  [[0, 1, 0, 0], [- 1, 0, 0, 0], [0, 0, 1, 0], [0, 0, 0, 1]],
  [[0, 0, 1, 0], [0, 1, 0, 0], [- 1, 0, 0, 0], [0, 0, 0, 1]],
  [[1, 0, 0, 0], [0, 0, - 1, 0], [0, 1, 0, 0], [0, 0, 0, 1]],
  [[0, 1, 0, 0], [1, 0, 0, 0], [0, 0, - 1, 0], [0, 0, 0, 1]],
  [[0, 0, - 1, 0], [0, 1, 0, 0], [1, 0, 0, 0], [0, 0, 0, 1]],
  [[1, 0, 0, 0], [0, 1, 0, 0], [0, 0, 1, 0], [0, 0, 0, 1]],
  [[0, 1, 0, 0], [0, 0, 1, 0], [1, 0, 0, 0], [0, 0, 0, 1]],
  [[0, 0, 1, 0], [1, 0, 0, 0], [0, 1, 0, 0], [0, 0, 0, 1]]]"
  by code_simp

lemma NOR_24: "NOR = 24"
  by (simp add: NOR_def ROTATIONS_eq)

lemma rotations_checked:
  "list_all (\<lambda>m. m = homogeneous (block3 m) \<and> signed_permutation3 (block3 m)
                  \<and> det3 (block3 m) = 1) ROTATIONS"
  by code_simp

lemma rotations_distinct: "distinct ROTATIONS \<and> distinct (map block3 ROTATIONS)"
  by code_simp

text \<open>
  C5. The table has exactly 24 entries. Each is the homogeneous form of a
  \<open>3 \<times> 3\<close> matrix with entries in \<open>{-1, 0, 1}\<close>, exactly one nonzero entry in every row
  and in every column, and determinant \<open>+1\<close>; so none has determinant \<open>-1\<close>. No two
  entries are equal, and no two of the \<open>3 \<times> 3\<close> matrices are.
\<close>

theorem rotations_are_the_24_proper_rotations:
  "length ROTATIONS = 24 \<and> NOR = 24
   \<and> (\<forall>m \<in> set ROTATIONS.
         m = homogeneous (block3 m) \<and> signed_permutation3 (block3 m)
         \<and> det3 (block3 m) = 1 \<and> det3 (block3 m) \<noteq> - 1)
   \<and> distinct ROTATIONS \<and> distinct (map block3 ROTATIONS)"
  using rotations_checked rotations_distinct NOR_24
  by (auto simp: list_all_iff NOR_def)

theorem rotations_are_the_24_proper_rotations_witness:
  "ROTATIONS ! 4 \<in> set ROTATIONS
   \<and> block3 (ROTATIONS ! 4) = [[0, - 1, 0], [0, 0, 1], [- 1, 0, 0]]
   \<and> signed_permutation3 [[0, - 1, 0], [0, 0, 1], [- 1, 0, 0]]
   \<and> det3 [[0, - 1, 0], [0, 0, 1], [- 1, 0, 0]] = 1"
proof -
  have mem: "ROTATIONS ! 4 \<in> set ROTATIONS"
    by (simp add: ROTATIONS_eq)
  have blk: "block3 (ROTATIONS ! 4) = [[0, - 1, 0], [0, 0, 1], [- 1, 0, 0]]"
    by (simp add: ROTATIONS_eq block3_def)
  from rotations_are_the_24_proper_rotations mem
  have "signed_permutation3 (block3 (ROTATIONS ! 4)) \<and> det3 (block3 (ROTATIONS ! 4)) = 1"
    by blast
  with mem blk show ?thesis by simp
qed

section \<open>Rotations and translations keep distances\<close>

lemma upt4: "[0..<4] = [0, 1, 2, 3]"
  by code_simp

lemma orient_turns: "map (\<lambda>m. orient m p) ROTATIONS = turns p"
  by (cases p) (simp add: ROTATIONS_eq turns_def orient_def vecmat_def ncols_def upt4)

lemma sqdist_turns:
  "list_all2 (\<lambda>a b. sqdist a b = sqdist p q) (turns p) (turns q)"
  by (cases p; cases q) (simp add: turns_def sqdist_def vsub_def algebra_simps)

lemma length_turns: "length (turns p) = 24"
  by (cases p) (simp add: turns_def)

lemma sqdist_orient:
  assumes "m \<in> set ROTATIONS"
  shows "sqdist (orient m p) (orient m q) = sqdist p q"
proof -
  from assms obtain i where i: "i < length ROTATIONS" "ROTATIONS ! i = m"
    by (auto simp: in_set_conv_nth)
  have "orient m p = turns p ! i" "orient m q = turns q ! i"
    using i orient_turns [of p, symmetric] orient_turns [of q, symmetric] by auto
  moreover have "i < length (turns p)"
    using i orient_turns [of p, symmetric] by simp
  ultimately show ?thesis
    using list_all2_nthD [OF sqdist_turns [of p q], of i] by simp
qed

lemma sqdist_eq_0: "sqdist p q = 0 \<longleftrightarrow> p = q"
  by (cases p; cases q) (auto simp: sqdist_def vsub_def sum_squares_eq_zero_iff add_nonneg_eq_0_iff)

lemma orient_inj: "m \<in> set ROTATIONS \<Longrightarrow> orient m p = orient m q \<longleftrightarrow> p = q"
  by (metis sqdist_eq_0 sqdist_orient)

lemma sqdist_vadd: "sqdist (vadd p t) (vadd q t) = sqdist p q"
  by (cases p; cases q; cases t) (simp add: sqdist_def vsub_def vadd_def)

section \<open>Counting coincidences\<close>

lemma index_of_nth: "x \<in> set xs \<Longrightarrow> xs ! index_of xs x = x"
  by (induction xs) (auto simp: index_of_def)

lemma index_of_inj:
  "x \<in> set xs \<Longrightarrow> y \<in> set xs \<Longrightarrow> index_of xs x = index_of xs y \<longleftrightarrow> x = y"
  by (metis index_of_nth)

lemma np_unique_fst_length: "length (fst (np_unique rows)) = card (set rows)"
  by (simp add: np_unique_def Let_def length_remdups_card_conv)

lemma matches_map:
  "matches (map f xs) (map f ys) = map (\<lambda>r. length (filter (\<lambda>b. f b = f r) xs)) ys"
  by (simp add: matches_def filter_map comp_def)

lemma matches_np_unique:
  assumes "nob = length ob"
  shows "matches (take nob (snd (np_unique (ob @ rs)))) (drop nob (snd (np_unique (ob @ rs))))
         = map (count_list ob) rs"
proof -
  let ?vals = "sort (remdups (ob @ rs))"
  have mem: "\<And>x. x \<in> set ob \<union> set rs \<Longrightarrow> x \<in> set ?vals" by simp
  have "matches (take nob (snd (np_unique (ob @ rs)))) (drop nob (snd (np_unique (ob @ rs))))
        = matches (map (index_of ?vals) ob) (map (index_of ?vals) rs)"
    using assms by (simp add: np_unique_def Let_def)
  also have "\<dots> = map (\<lambda>r. length (filter (\<lambda>b. index_of ?vals b = index_of ?vals r) ob)) rs"
    by (rule matches_map)
  also have "\<dots> = map (count_list ob) rs"
  proof (rule map_cong [OF refl])
    fix r assume r: "r \<in> set rs"
    have "filter (\<lambda>b. index_of ?vals b = index_of ?vals r) ob = filter ((=) r) ob"
      by (rule filter_cong [OF refl]) (use r mem index_of_inj [of _ ?vals r] in auto)
    then show "length (filter (\<lambda>b. index_of ?vals b = index_of ?vals r) ob) = count_list ob r"
      by (simp add: count_list_eq_length_filter)
  qed
  finally show ?thesis .
qed

lemma take_drop_concat:
  "\<forall>row \<in> set rows. length row = n \<Longrightarrow> r < length rows \<Longrightarrow>
   take n (drop (r * n) (concat rows)) = rows ! r"
proof (induction rows arbitrary: r)
  case Nil
  then show ?case by simp
next
  case (Cons row rows)
  show ?case
  proof (cases r)
    case 0
    with Cons.prems show ?thesis by simp
  next
    case (Suc k)
    with Cons.prems have "take n (drop (k * n) (concat rows)) = rows ! k"
      by (intro Cons.IH) auto
    with Suc Cons.prems show ?thesis by (simp add: add.commute)
  qed
qed

lemma length_concat_uniform:
  "\<forall>row \<in> set rows. length row = n \<Longrightarrow> length (concat rows) = length rows * n"
  by (induction rows) auto

lemma row_sums_concat:
  assumes "\<forall>row \<in> set rows. length row = n" "0 < n"
  shows "row_sums n (map g (concat rows)) = map (\<lambda>row. sum_list (map g row)) rows"
proof -
  have "length (concat rows) = length rows * n"
    using assms(1) by (rule length_concat_uniform)
  then have len: "length (map g (concat rows)) div n = length rows"
    using assms(2) by simp
  have "row_sums n (map g (concat rows))
        = map (\<lambda>r. sum_list (map g (take n (drop (r * n) (concat rows))))) [0..<length rows]"
    unfolding row_sums_def len by (simp add: take_map drop_map)
  also have "\<dots> = map (\<lambda>r. sum_list (map g (rows ! r))) [0..<length rows]"
    using assms(1) by (intro map_cong refl) (simp add: take_drop_concat)
  also have "\<dots> = map (\<lambda>row. sum_list (map g row)) (map ((!) rows) [0..<length rows])"
    by (simp add: comp_def)
  also have "\<dots> = map (\<lambda>row. sum_list (map g row)) rows"
    by (simp only: map_nth)
  finally show ?thesis .
qed

lemma length_orientations: "length (orientations sb) = 24"
  using NOR_24 by (simp add: orientations_def NOR_def)

lemma orientations_rows: "ori \<in> set (orientations sb) \<Longrightarrow> length ori = length sb"
  by (auto simp: orientations_def)

lemma length_repositioned: "length (repositioned sb reference i) = 24"
  by (simp add: repositioned_def offsets_def length_orientations)

lemma repositioned_rows:
  "row \<in> set (repositioned sb reference i) \<Longrightarrow> length row = length sb"
  by (auto simp: repositioned_def dest!: set_zip_leftD orientations_rows)

lemma counts_hits:
  assumes "sb \<noteq> []"
  shows "counts sb ob reference i = map (hits ob) (repositioned sb reference i)"
proof -
  have "counts sb ob reference i
        = row_sums (length sb) (map (count_list ob) (concat (repositioned sb reference i)))"
    by (simp add: counts_def stacked_def Let_def matches_np_unique)
  also have "\<dots> = map (\<lambda>row. sum_list (map (count_list ob) row)) (repositioned sb reference i)"
    using assms by (intro row_sums_concat) (auto simp: repositioned_rows)
  finally show ?thesis by (simp add: hits_def)
qed

section \<open>The check on the number of unique rows\<close>

lemma vadd_vsub_cancel: "vadd p (vsub r p) = r"
  by (cases p; cases r) (simp add: vadd_def vsub_def)

lemma repositioned_nth:
  assumes "k < 24"
  shows "repositioned sb reference i ! k
         = map (\<lambda>p. vadd p (vsub reference (orientations sb ! k ! i))) (orientations sb ! k)"
  using assms by (simp add: repositioned_def offsets_def length_orientations)

lemma reference_in_repositioned:
  assumes "i < length sb" "row \<in> set (repositioned sb reference i)"
  shows "reference \<in> set row"
proof -
  from assms(2) obtain k where k: "k < 24" "row = repositioned sb reference i ! k"
    by (auto simp: in_set_conv_nth length_repositioned)
  let ?ori = "orientations sb ! k"
  have len: "length ?ori = length sb"
    using k(1) by (intro orientations_rows) (simp add: length_orientations)
  have "row ! i = reference"
    using k assms(1) len by (simp add: repositioned_nth vadd_vsub_cancel)
  moreover have "i < length row"
    using k assms(1) len by (simp add: repositioned_nth)
  ultimately show ?thesis by (metis nth_mem)
qed

lemma length_filter_concat_le:
  "\<forall>row \<in> set rows. length (filter P row) \<le> m \<Longrightarrow>
   length (filter P (concat rows)) \<le> length rows * m"
  by (induction rows) (auto simp: add.commute add_le_mono)

lemma card_stacked_le:
  "card (set (ob @ cs)) \<le> length ob + length (filter (\<lambda>p. p \<notin> set ob) cs)"
proof -
  have "set (ob @ cs) = set ob \<union> set (filter (\<lambda>p. p \<notin> set ob) cs)" by auto
  then have "card (set (ob @ cs)) \<le> card (set ob) + card (set (filter (\<lambda>p. p \<notin> set ob) cs))"
    by (simp add: card_Un_le)
  also have "\<dots> \<le> length ob + length (filter (\<lambda>p. p \<notin> set ob) cs)"
    by (intro add_mono card_length)
  finally show ?thesis .
qed

lemma unique_rows_bound:
  assumes "i < length sb" "reference \<in> set ob"
  shows "card (set (stacked sb ob reference i)) + 24 \<le> length sb * 24 + length ob"
proof -
  let ?rows = "repositioned sb reference i"
  let ?P = "\<lambda>p. p \<notin> set ob"
  have "length (filter ?P row) \<le> length sb - 1" if "row \<in> set ?rows" for row
  proof -
    have "reference \<in> set row" using assms(1) that by (rule reference_in_repositioned)
    with assms(2) have "length (filter ?P row) < length row"
      by (intro length_filter_less [of reference]) auto
    with that show ?thesis by (simp add: repositioned_rows)
  qed
  then have "length (filter ?P (concat ?rows)) \<le> length ?rows * (length sb - 1)"
    by (intro length_filter_concat_le) blast
  then have "length (filter ?P (concat ?rows)) \<le> 24 * (length sb - 1)"
    by (simp add: length_repositioned)
  moreover have "card (set (stacked sb ob reference i))
                 \<le> length ob + length (filter ?P (concat ?rows))"
    unfolding stacked_def by (rule card_stacked_le)
  ultimately show ?thesis using assms(1) by simp
qed

text \<open>The check on the number of unique rows never fires.\<close>

lemma try_anchor_counts:
  assumes "i < length sb" "reference \<in> set ob"
  shows "try_anchor sb ob reference i =
     (if \<not> list_ex (\<lambda>c. c \<ge> MIN_BEACONS_IN_COMMON) (counts sb ob reference i) then Inr None
      else Inr (Some \<lparr>beacons = repositioned sb reference i ! argmax (counts sb ob reference i),
                       position = vsub reference
                         (orientations sb ! argmax (counts sb ob reference i) ! i)\<rparr>))"
proof -
  have "\<not> int (length (fst (np_unique (stacked sb ob reference i))))
          > int (length sb * NOR) + int (length ob) - 12"
    using unique_rows_bound [OF assms] by (simp add: np_unique_fst_length NOR_24)
  with assms(1) show ?thesis
    by (simp add: try_anchor_def Let_def)
qed

section \<open>The distance map\<close>

lemma set_combinations2: "set (combinations2 n) = {(i, j). i < j \<and> j < n}"
  by (fastforce simp: combinations2_def)

lemma set_update_pair:
  "set (set_update t [i, j]) = set t \<union> {i, j}"
  "length (set_update t [i, j]) \<le> length t + 2"
  "set_update t [i, j] \<noteq> []"
  "[] \<noteq> set_update t [i, j]"
  by (auto simp: set_update_def)

lemma keys_update_in_place:
  "map fst (map (\<lambda>(d', t). if d' = d then (d', g t) else (d', t)) m) = map fst m"
  by (induction m) auto

lemma map_of_None_keys: "map_of m d = None \<longleftrightarrow> d \<notin> set (keys m)"
  by (simp add: keys_def map_of_eq_None_iff)

lemma keys_add_pair:
  "keys (add_pair m (d, i, j)) = (if d \<in> set (keys m) then keys m else keys m @ [d])"
proof (cases "map_of m d")
  case None
  then show ?thesis using map_of_None_keys [of m d] by (simp add: keys_def)
next
  case (Some s)
  then have "d \<in> set (keys m)" using map_of_None_keys [of m d] by simp
  moreover have "add_pair m (d, i, j)
      = map (\<lambda>(d', t). if d' = d then (d', set_update t [i, j]) else (d', t)) m"
    using Some by simp
  ultimately show ?thesis
    by (simp only: keys_def keys_update_in_place if_True)
qed

lemma keys_Nil: "keys [] = []"
  by (simp add: keys_def)

lemma add_pair_cases:
  assumes "(d', s') \<in> set (add_pair m (d, i, j))"
  shows "(d' \<noteq> d \<and> (d', s') \<in> set m)
         \<or> (d' = d \<and> (\<exists>t. ((d, t) \<in> set m \<or> t = []) \<and> s' = set_update t [i, j]))"
proof (cases "map_of m d")
  case None
  with assms show ?thesis using map_of_None_keys [of m d]
    by (auto simp: keys_def image_iff) 
next
  case (Some s)
  with assms show ?thesis by (auto split: if_splits)
qed

lemma keys_foldl:
  "set (keys (foldl add_pair m xs)) = set (keys m) \<union> fst ` set xs"
proof (induction xs arbitrary: m)
  case Nil
  then show ?case by simp
next
  case (Cons x xs)
  obtain d i j where x: "x = (d, i, j)" by (cases x) auto
  have "set (keys (add_pair m (d, i, j))) = insert d (set (keys m))"
    by (auto simp: keys_add_pair simp del: add_pair.simps)
  with Cons.IH [of "add_pair m x"] show ?case by (simp add: x del: add_pair.simps)
qed


lemma keys_distances: "set (keys (distances bs)) = set (pdist bs)"
proof -
  have "fst ` set (zip (pdist bs) (combinations2 (length bs))) = set (pdist bs)"
    by (metis length_map map_fst_zip pdist_def set_map)
  then show ?thesis by (simp add: distances_def keys_foldl keys_Nil)
qed


lemma index_sets_foldl:
  assumes "\<forall>(d, s) \<in> set m. s \<noteq> [] \<and> (\<forall>k \<in> set s. k < n)"
    and "\<forall>(d, i, j) \<in> set xs. i < n \<and> j < n"
  shows "\<forall>(d, s) \<in> set (foldl add_pair m xs). s \<noteq> [] \<and> (\<forall>k \<in> set s. k < n)"
  using assms
proof (induction xs arbitrary: m)
  case Nil
  then show ?case by simp
next
  case (Cons x xs)
  obtain d i j where x: "x = (d, i, j)" by (cases x) auto
  have ij: "i < n" "j < n" using Cons.prems(2) x by auto
  have "\<forall>(d, s) \<in> set (add_pair m x). s \<noteq> [] \<and> (\<forall>k \<in> set s. k < n)"
  proof (clarify, rule conjI)
    fix d' s' assume mem: "(d', s') \<in> set (add_pair m x)"
    from add_pair_cases [OF mem [unfolded x]] Cons.prems(1)
    show "s' \<noteq> []" by (auto simp: set_update_pair)
    from add_pair_cases [OF mem [unfolded x]] Cons.prems(1) ij
    show "\<forall>k \<in> set s'. k < n" by (fastforce simp: set_update_pair)
  qed
  moreover have "\<forall>(d, i, j) \<in> set xs. i < n \<and> j < n" using Cons.prems(2) by simp
  ultimately show ?case using Cons.IH [of "add_pair m x"] by simp
qed

lemma index_sets_distances:
  assumes "map_of (distances bs) d = Some s"
  shows "s \<noteq> [] \<and> (\<forall>k \<in> set s. k < length bs)"
proof -
  have "\<forall>(d, i, j) \<in> set (zip (pdist bs) (combinations2 (length bs))). i < length bs \<and> j < length bs"
    by (auto dest!: set_zip_rightD simp: set_combinations2)
  then have "\<forall>(d, s) \<in> set (distances bs). s \<noteq> [] \<and> (\<forall>k \<in> set s. k < length bs)"
    unfolding distances_def by (intro index_sets_foldl) auto
  with map_of_SomeD [OF assms] show ?thesis by blast
qed

lemma getitem_distances:
  assumes "d \<in> set (keys (distances bs))"
  shows "\<exists>s. getitem (distances bs) d = Inr s \<and> s \<noteq> [] \<and> (\<forall>k \<in> set s. k < length bs)"
proof -
  from assms obtain s where s: "map_of (distances bs) d = Some s"
    using map_of_None_keys [of "distances bs" d] by (cases "map_of (distances bs) d") auto
  with index_sets_distances [OF s] show ?thesis by (simp add: getitem_def)
qed

subsection \<open>The size of the index sets\<close>






lemma set_shared_keys:
  "set (shared_keys (distances sb) (distances ob)) = set (pdist sb) \<inter> set (pdist ob)"
  by (auto simp: shared_keys_def keys_distances)


subsection \<open>Every index set has two elements or more\<close>

lemma two_indices_foldl:
  assumes "\<forall>(d, s) \<in> set m. 2 \<le> length s"
    and "\<forall>(d, i, j) \<in> set xs. i \<noteq> j"
  shows "\<forall>(d, s) \<in> set (foldl add_pair m xs). 2 \<le> length s"
  using assms
proof (induction xs arbitrary: m)
  case Nil
  then show ?case by simp
next
  case (Cons x xs)
  obtain d i j where x: "x = (d, i, j)" by (cases x) auto
  have ij: "i \<noteq> j" using Cons.prems(2) x by auto
  have "\<forall>(d', s') \<in> set (add_pair m x). 2 \<le> length s'"
  proof clarify
    fix d' s' assume mem: "(d', s') \<in> set (add_pair m x)"
    from add_pair_cases [OF mem [unfolded x]]
    consider (old) "(d', s') \<in> set m" | (new) t where "s' = set_update t [i, j]"
      by blast
    then show "2 \<le> length s'"
    proof cases
      case old
      with Cons.prems(1) show ?thesis by auto
    next
      case new
      then have "{i, j} \<subseteq> set s'" by (simp add: set_update_pair)
      then have "card {i, j} \<le> card (set s')" by (intro card_mono) auto
      also have "\<dots> \<le> length s'" by (rule card_length)
      finally show ?thesis using ij by simp
    qed
  qed
  moreover have "\<forall>(d, i, j) \<in> set xs. i \<noteq> j" using Cons.prems(2) by simp
  ultimately show ?case using Cons.IH [of "add_pair m x"] by (simp del: add_pair.simps)
qed

lemma two_indices_distances:
  assumes "map_of (distances bs) d = Some s"
  shows "2 \<le> length s"
proof -
  have "\<forall>(d, i, j) \<in> set (zip (pdist bs) (combinations2 (length bs))). i \<noteq> j"
    by (auto dest!: set_zip_rightD simp: set_combinations2)
  then have "\<forall>(d, s) \<in> set (distances bs). 2 \<le> length s"
    unfolding distances_def by (intro two_indices_foldl) auto
  with map_of_SomeD [OF assms] show ?thesis by blast
qed

text \<open>So the sum of the pre-filter is at least the number of shared distances.\<close>

lemma common_distances_ge:
  "length (shared_keys (distances sb) (distances ob))
   \<le> common_distances (distances sb) (shared_keys (distances sb) (distances ob))"
proof -
  let ?sh = "shared_keys (distances sb) (distances ob)"
  have "sum_list (map (\<lambda>d. 1) ?sh) \<le> common_distances (distances sb) ?sh"
    unfolding common_distances_def
  proof (rule sum_list_mono)
    fix d assume "d \<in> set ?sh"
    then have "d \<in> set (keys (distances sb))" by (simp add: shared_keys_def)
    then obtain s where s: "map_of (distances sb) d = Some s"
      using map_of_None_keys [of "distances sb" d] by (cases "map_of (distances sb) d") auto
    from two_indices_distances [OF s] have "1 \<le> length s div 2" by simp
    with s show "1 \<le> (case map_of (distances sb) d of None \<Rightarrow> 0 | Some s \<Rightarrow> length s div 2)"
      by simp
  qed
  then show ?thesis by (simp add: sum_list_triv)
qed

section \<open>The matcher\<close>

subsection \<open>argmax\<close>

lemma index_of_less: "x \<in> set xs \<Longrightarrow> index_of xs x < length xs"
  by (induction xs) (auto simp: index_of_def)

lemma argmax_less: "xs \<noteq> [] \<Longrightarrow> argmax xs < length xs"
  unfolding argmax_def by (rule index_of_less) simp

lemma nth_argmax: "xs \<noteq> [] \<Longrightarrow> xs ! argmax xs = Max (set xs)"
  unfolding argmax_def by (rule index_of_nth) simp

lemma list_ex_Max: "xs \<noteq> [] \<Longrightarrow> list_ex (\<lambda>c. n \<le> c) xs \<longleftrightarrow> n \<le> Max (set xs)"
  by (simp add: list_ex_iff Max_ge_iff)

lemma length_counts: "sb \<noteq> [] \<Longrightarrow> length (counts sb ob reference i) = 24"
  by (simp add: counts_hits length_repositioned)

subsection \<open>Points in common\<close>

lemma hits_filter: "distinct ob \<Longrightarrow> hits ob cloud = length (filter (\<lambda>p. p \<in> set ob) cloud)"
proof (induction cloud)
  case Nil
  then show ?case by (simp add: hits_def)
next
  case (Cons p cloud)
  have "count_list ob p = (if p \<in> set ob then 1 else 0)"
    using Cons.prems by (induction ob) auto
  with Cons show ?case by (simp add: hits_def)
qed

lemma hits_card:
  assumes "distinct ob" "distinct cloud"
  shows "hits ob cloud = card (set ob \<inter> set cloud)"
proof -
  have "hits ob cloud = length (filter (\<lambda>p. p \<in> set ob) cloud)"
    using assms(1) by (rule hits_filter)
  also have "\<dots> = card (set (filter (\<lambda>p. p \<in> set ob) cloud))"
    using assms(2) distinct_card [of "filter (\<lambda>p. p \<in> set ob) cloud"] by simp
  also have "set (filter (\<lambda>p. p \<in> set ob) cloud) = set ob \<inter> set cloud" by auto
  finally show ?thesis .
qed

lemma hits_ge:
  assumes "distinct cs" "set cs \<subseteq> set ob" "set cs \<subseteq> set cloud"
  shows "length cs \<le> hits ob cloud"
proof -
  have "length cs = card (set cs)" using assms(1) by (simp add: distinct_card)
  also have "\<dots> \<le> card (set (filter (\<lambda>p. p \<in> set ob) cloud))"
    using assms(2,3) by (intro card_mono) auto
  also have "\<dots> \<le> length (filter (\<lambda>p. p \<in> set ob) cloud)" by (rule card_length)
  also have "\<dots> = sum_list (map (\<lambda>p. if p \<in> set ob then 1 else 0) cloud)"
    by (induction cloud) auto
  also have "\<dots> \<le> hits ob cloud"
  proof (unfold hits_def, rule sum_list_mono)
    fix p assume "p \<in> set cloud"
    show "(if p \<in> set ob then 1 else 0) \<le> count_list ob p"
      using count_list_0_iff [of ob p] by (cases "count_list ob p") auto
  qed
  finally show ?thesis .
qed

subsection \<open>Moved clouds\<close>

lemma vadd_inj: "vadd p t = vadd q t \<longleftrightarrow> p = q"
  by (cases p; cases q; cases t) (simp add: vadd_def)

lemma distinct_moved:
  "m \<in> set ROTATIONS \<Longrightarrow> distinct bs \<Longrightarrow> distinct (moved m t bs)"
  by (simp add: moved_def distinct_map inj_on_def vadd_inj orient_inj)

lemma orientations_nth:
  "k < 24 \<Longrightarrow> orientations sb ! k = map (orient (ROTATIONS ! k)) sb"
  using NOR_24 by (simp add: orientations_def NOR_def)

lemma repositioned_moved:
  assumes "k < 24" "i < length sb"
  shows "repositioned sb reference i ! k
         = moved (ROTATIONS ! k) (vsub reference (orient (ROTATIONS ! k) (sb ! i))) sb"
  using assms by (simp add: repositioned_nth orientations_nth moved_def)

lemma rotation_index:
  "m \<in> set ROTATIONS \<Longrightarrow> \<exists>k < 24. ROTATIONS ! k = m"
  using NOR_24 by (auto simp: in_set_conv_nth NOR_def)

lemma rotation_nth: "k < 24 \<Longrightarrow> ROTATIONS ! k \<in> set ROTATIONS"
  using NOR_24 by (simp add: NOR_def)

lemma vsub_vadd_cancel: "vsub (vadd p t) p = t"
  by (cases p; cases t) (simp add: vadd_def vsub_def)

subsection \<open>Distances between common points\<close>

lemma sqdist_sym: "sqdist p q = sqdist q p"
  by (cases p; cases q) (simp add: sqdist_def vsub_def algebra_simps)

lemma set_pdist: "set (pdist bs) = {sqdist (bs ! i) (bs ! j) | i j. i < j \<and> j < length bs}"
  by (auto simp: pdist_def set_combinations2 image_iff) 

lemma sqdist_in_pdist:
  assumes "p \<in> set bs" "q \<in> set bs" "p \<noteq> q"
  shows "sqdist p q \<in> set (pdist bs)"
proof -
  from assms obtain a b where ab: "a < length bs" "b < length bs" "bs ! a = p" "bs ! b = q" "a \<noteq> b"
    by (metis in_set_conv_nth)
  show ?thesis
  proof (cases "a < b")
    case True
    with ab show ?thesis unfolding set_pdist by blast
  next
    case False
    with ab have "b < a" by simp
    with ab have "sqdist q p \<in> set (pdist bs)" unfolding set_pdist by blast
    then show ?thesis by (simp add: sqdist_sym)
  qed
qed

lemma pdist_subset:
  assumes "distinct cs" "set cs \<subseteq> set bs"
  shows "set (pdist cs) \<subseteq> set (pdist bs)"
proof
  fix d assume "d \<in> set (pdist cs)"
  then obtain i j where ij: "i < j" "j < length cs" "d = sqdist (cs ! i) (cs ! j)"
    unfolding set_pdist by blast
  with assms(1) have "cs ! i \<noteq> cs ! j" by (simp add: nth_eq_iff_index_eq)
  moreover from ij assms(2) have "cs ! i \<in> set bs" "cs ! j \<in> set bs" by auto
  ultimately show "d \<in> set (pdist bs)" unfolding ij(3) by (intro sqdist_in_pdist)
qed

lemma pdist_moved: "m \<in> set ROTATIONS \<Longrightarrow> pdist (moved m t bs) = pdist bs"
  by (auto simp: pdist_def moved_def set_combinations2 sqdist_vadd sqdist_orient)

lemma MIN_COMMON_DISTANCES_66: "MIN_COMMON_DISTANCES = 66"
  by code_simp

lemma next_iter_iterates:
  assumes "iterates it" "xs \<noteq> []"
  shows "\<exists>x. next_iter (it xs) = Inr x \<and> x \<in> set xs"
proof -
  from assms have "set (it xs) = set xs" "set xs \<noteq> {}" by (auto simp: iterates_def)
  then show ?thesis by (cases "it xs") (auto simp: next_iter_def)
qed

lemma pick_reference_member:
  "pick_reference ki ii ob sd od shared = Inr (R, anchors) \<Longrightarrow> R \<in> set ob"
  by (auto simp: pick_reference_def split: sum.splits if_splits)

lemma pick_reference_iterates:
  assumes "iterates ki" "iterates ii"
    and sh: "shared_keys (distances sb) (distances ob) \<noteq> []"
  shows "\<exists>R anchors.
           pick_reference ki ii ob (distances sb) (distances ob)
             (shared_keys (distances sb) (distances ob)) = Inr (R, anchors)
           \<and> (\<forall>i \<in> set anchors. i < length sb)"
proof -
  let ?sh = "shared_keys (distances sb) (distances ob)"
  from next_iter_iterates [OF assms(1) sh]
  obtain d where d: "next_iter (ki ?sh) = Inr d" "d \<in> set ?sh" by blast
  from d(2) have ks: "d \<in> set (keys (distances sb))" and ko: "d \<in> set (keys (distances ob))"
    by (auto simp: shared_keys_def)
  from getitem_distances [OF ko] obtain op where
    op: "getitem (distances ob) d = Inr op" "op \<noteq> []" "\<forall>k \<in> set op. k < length ob" by blast
  from next_iter_iterates [OF assms(2) op(2)]
  obtain k where k: "next_iter (ii op) = Inr k" "k \<in> set op" by blast
  from getitem_distances [OF ks] obtain own where
    own: "getitem (distances sb) d = Inr own" "\<forall>k \<in> set own. k < length sb" by blast
  have klt: "\<not> length ob \<le> k" using op(3) k(2) by auto
  have "pick_reference ki ii ob (distances sb) (distances ob) ?sh = Inr (ob ! k, ii own)"
    by (simp add: pick_reference_def d(1) op(1) k(1) own(1) klt)
  moreover have "\<forall>i \<in> set (ii own). i < length sb"
    using assms(2) own(2) by (simp add: iterates_def)
  ultimately show ?thesis by blast
qed

lemma anchors_loop_Some:
  "anchors_loop sb ob R anchors = Inr (Some r) \<Longrightarrow>
   \<exists>i \<in> set anchors. try_anchor sb ob R i = Inr (Some r)"
  by (induction anchors) (auto split: sum.splits option.splits)

lemma try_anchor_Some:
  assumes "try_anchor sb ob R i = Inr (Some r)"
  shows "i < length sb \<and> list_ex (\<lambda>c. 12 \<le> c) (counts sb ob R i)
         \<and> beacons r = repositioned sb R i ! argmax (counts sb ob R i)
         \<and> position r = vsub R (orientations sb ! argmax (counts sb ob R i) ! i)"
  using assms
  by (auto simp: try_anchor_def Let_def MIN_BEACONS_IN_COMMON_def split: if_splits)

lemma anchors_loop_accepts:
  assumes "R \<in> set ob" "\<forall>i \<in> set anchors. i < length sb"
  shows "(\<exists>r. anchors_loop sb ob R anchors = Inr (Some r))
           \<longleftrightarrow> (\<exists>i \<in> set anchors. list_ex (\<lambda>c. 12 \<le> c) (counts sb ob R i))"
    and "anchors_loop sb ob R anchors = Inr None
           \<longleftrightarrow> (\<forall>i \<in> set anchors. \<not> list_ex (\<lambda>c. 12 \<le> c) (counts sb ob R i))"
  using assms(2)
  by (induction anchors)
     (auto simp: try_anchor_counts [OF _ assms(1)] MIN_BEACONS_IN_COMMON_def)

lemma scanner_and_unfold:
  assumes "66 \<le> common_distances (distances (beacons self))
             (shared_keys (distances (beacons self)) (distances (beacons other)))"
    and "pick_reference ki ii (beacons other) (distances (beacons self)) (distances (beacons other))
           (shared_keys (distances (beacons self)) (distances (beacons other))) = Inr (R, anchors)"
  shows "scanner_and ki ii self other = anchors_loop (beacons self) (beacons other) R anchors"
  using assms by (simp add: scanner_and_def Let_def MIN_COMMON_DISTANCES_66)

lemma scanner_and_Some:
  assumes "scanner_and ki ii self other = Inr (Some r)"
  shows "66 \<le> common_distances (distances (beacons self))
             (shared_keys (distances (beacons self)) (distances (beacons other)))
         \<and> (\<exists>R anchors.
               pick_reference ki ii (beacons other) (distances (beacons self))
                 (distances (beacons other))
                 (shared_keys (distances (beacons self)) (distances (beacons other)))
               = Inr (R, anchors)
               \<and> anchors_loop (beacons self) (beacons other) R anchors = Inr (Some r))"
  using assms
  by (auto simp: scanner_and_def Let_def MIN_COMMON_DISTANCES_66 split: if_splits sum.splits)

lemma shared_keys_nonempty:
  assumes "66 \<le> common_distances sd shared"
  shows "shared \<noteq> []"
  using assms by (auto simp: common_distances_def)

section \<open>The driver\<close>

lemma first_match_None:
  "first_match ki ii s placed = Inr None
   \<longleftrightarrow> (\<forall>other \<in> set placed. scanner_and ki ii s other = Inr None)"
  by (induction placed) (auto split: sum.splits option.splits)

lemma first_match_Some:
  "first_match ki ii s placed = Inr (Some x)
   \<longleftrightarrow> (\<exists>pre other post. placed = pre @ other # post
         \<and> (\<forall>p \<in> set pre. scanner_and ki ii s p = Inr None)
         \<and> scanner_and ki ii s other = Inr (Some x))"
proof (induction placed)
  case Nil
  then show ?case by simp
next
  case (Cons other placed)
  show ?case
  proof (cases "scanner_and ki ii s other")
    case (Inl e)
    then show ?thesis by (auto simp: Cons_eq_append_conv)
  next
    case (Inr res)
    show ?thesis
    proof (cases res)
      case None
      show ?thesis
      proof
        assume "first_match ki ii s (other # placed) = Inr (Some x)"
        with Inr None Cons.IH obtain pre o' post where
          "placed = pre @ o' # post" "\<forall>p \<in> set pre. scanner_and ki ii s p = Inr None"
          "scanner_and ki ii s o' = Inr (Some x)" by auto
        with Inr None have "other # placed = (other # pre) @ o' # post
          \<and> (\<forall>p \<in> set (other # pre). scanner_and ki ii s p = Inr None)
          \<and> scanner_and ki ii s o' = Inr (Some x)" by simp
        then show "\<exists>pre o' post. other # placed = pre @ o' # post
          \<and> (\<forall>p \<in> set pre. scanner_and ki ii s p = Inr None)
          \<and> scanner_and ki ii s o' = Inr (Some x)" by blast
      next
        assume "\<exists>pre o' post. other # placed = pre @ o' # post
          \<and> (\<forall>p \<in> set pre. scanner_and ki ii s p = Inr None)
          \<and> scanner_and ki ii s o' = Inr (Some x)"
        then obtain pre o' post where *: "other # placed = pre @ o' # post"
          "\<forall>p \<in> set pre. scanner_and ki ii s p = Inr None"
          "scanner_and ki ii s o' = Inr (Some x)" by blast
        with Inr None obtain pre' where "pre = other # pre'" "placed = pre' @ o' # post"
          by (cases pre) auto
        with * Cons.IH Inr None show "first_match ki ii s (other # placed) = Inr (Some x)"
          by auto
      qed
    next
      case (Some y)
      show ?thesis
      proof
        assume "first_match ki ii s (other # placed) = Inr (Some x)"
        with Inr Some have "y = x" by simp
        with Inr Some have "other # placed = [] @ other # placed
          \<and> (\<forall>p \<in> set []. scanner_and ki ii s p = Inr None)
          \<and> scanner_and ki ii s other = Inr (Some x)" by simp
        then show "\<exists>pre o' post. other # placed = pre @ o' # post
          \<and> (\<forall>p \<in> set pre. scanner_and ki ii s p = Inr None)
          \<and> scanner_and ki ii s o' = Inr (Some x)" by blast
      next
        assume "\<exists>pre o' post. other # placed = pre @ o' # post
          \<and> (\<forall>p \<in> set pre. scanner_and ki ii s p = Inr None)
          \<and> scanner_and ki ii s o' = Inr (Some x)"
        then obtain pre o' post where *: "other # placed = pre @ o' # post"
          "\<forall>p \<in> set pre. scanner_and ki ii s p = Inr None"
          "scanner_and ki ii s o' = Inr (Some x)" by blast
        with Inr Some have "pre = []" by (cases pre) auto
        with * Inr Some show "first_match ki ii s (other # placed) = Inr (Some x)" by auto
      qed
    qed
  qed
qed

lemma first_match_append:
  "first_match ki ii s placed = Inr (Some x) \<Longrightarrow> first_match ki ii s (placed @ extra) = Inr (Some x)"
  by (induction placed) (auto split: sum.splits option.splits)

lemma position_loop_Nil: "position_loop ki ii [] placed = Some (Inr placed)"
  by (simp add: position_loop.simps)

lemma position_loop_placed:
  "first_match ki ii s placed = Inr (Some x) \<Longrightarrow>
   position_loop ki ii (s # q) placed = position_loop ki ii q (placed @ [x])"
  by (subst position_loop.simps) simp

lemma position_loop_requeue:
  "first_match ki ii s placed = Inr None \<Longrightarrow>
   position_loop ki ii (s # q) placed = position_loop ki ii (q @ [s]) placed"
  by (subst position_loop.simps) simp

lemma position_loop_raises:
  "first_match ki ii s placed = Inl e \<Longrightarrow> position_loop ki ii (s # q) placed = Some (Inl e)"
  by (subst position_loop.simps) simp

text \<open>No cloud of the queue matches a placed one: the loop never returns.\<close>

lemma position_loop_stuck:
  assumes "q \<noteq> []" "\<forall>s \<in> set q. first_match ki ii s placed = Inr None"
  shows "position_loop ki ii q placed = None"
proof (rule ccontr)
  assume "position_loop ki ii q placed \<noteq> None"
  then obtain y where y: "position_loop ki ii q placed = Some y" by auto
  let ?P = "\<lambda>ki ii q placed (y :: error + Scanner list).
              \<not> (q \<noteq> [] \<and> (\<forall>s \<in> set q. first_match ki ii s placed = Inr None))"
  have "?P ki ii q placed y"
  proof (rule position_loop.raw_induct [where P = ?P, OF _ y], goal_cases)
    case (1 loop ki ii q placed y)
    show ?case
    proof
      assume stuck: "q \<noteq> [] \<and> (\<forall>s \<in> set q. first_match ki ii s placed = Inr None)"
      then obtain s rest where q: "q = s # rest" by (cases q) auto
      with stuck have "first_match ki ii s placed = Inr None" by simp
      with 1(2) q have "loop ki ii (rest @ [s]) placed = Some y" by simp
      from 1(1) [OF this] stuck q show False by auto
    qed
  qed
  with assms show False by blast
qed

text \<open>Every cloud of the queue matches a placed one: the loop returns.\<close>

lemma position_loop_returns:
  assumes "\<forall>s \<in> set q. \<exists>x. first_match ki ii s placed = Inr (Some x)"
  shows "\<exists>r. position_loop ki ii q placed = Some (Inr r) \<and> length r = length placed + length q"
  using assms
proof (induction q arbitrary: placed)
  case Nil
  then show ?case by (simp add: position_loop_Nil)
next
  case (Cons s q)
  then obtain x where x: "first_match ki ii s placed = Inr (Some x)" by auto
  have "\<forall>s \<in> set q. \<exists>y. first_match ki ii s (placed @ [x]) = Inr (Some y)"
    using Cons.prems by (auto intro: first_match_append)
  from Cons.IH [OF this] show ?case
    by (auto simp: position_loop_placed [OF x])
qed

text \<open>What the loop returns: the placed clouds, then one match for every cloud of the queue.\<close>

lemma position_loop_result:
  assumes "position_loop ki ii q placed = Some (Inr r)"
  shows "\<exists>cs r'. r = placed @ r' \<and> mset cs = mset q
           \<and> list_all2 (\<lambda>c x. \<exists>other \<in> set r. scanner_and ki ii c other = Inr (Some x)) cs r'"
proof -
  let ?P = "\<lambda>ki ii q placed (y :: error + Scanner list).
        \<forall>r. y = Inr r \<longrightarrow> (\<exists>cs r'. r = placed @ r' \<and> mset cs = mset q
           \<and> list_all2 (\<lambda>c x. \<exists>other \<in> set r. scanner_and ki ii c other = Inr (Some x)) cs r')"
  have "?P ki ii q placed (Inr r)"
  proof (rule position_loop.raw_induct [where P = ?P, OF _ assms], goal_cases)
    case (1 loop ki ii q placed y)
    show ?case
    proof (intro allI impI)
      fix r assume yr: "y = Inr r"
      let ?rep = "\<lambda>c x. \<exists>other \<in> set r. scanner_and ki ii c other = Inr (Some x)"
      show "\<exists>cs r'. r = placed @ r' \<and> mset cs = mset q \<and> list_all2 ?rep cs r'"
      proof (cases q)
        case Nil
        with 1(2) yr have "r = placed" by simp
        with Nil show ?thesis by simp
      next
        case (Cons s rest)
        show ?thesis
        proof (cases "first_match ki ii s placed")
          case (Inl e)
          with 1(2) Cons yr show ?thesis by simp
        next
          case (Inr res)
          show ?thesis
          proof (cases res)
            case None
            with 1(2) Cons Inr have "loop ki ii (rest @ [s]) placed = Some y" by simp
            from 1(1) [OF this] yr obtain cs r' where
              "r = placed @ r'" "mset cs = mset (rest @ [s])" "list_all2 ?rep cs r'" by blast
            with Cons show ?thesis by (intro exI [of _ cs] exI [of _ r']) simp
          next
            case (Some x)
            with 1(2) Cons Inr have "loop ki ii rest (placed @ [x]) = Some y" by simp
            from 1(1) [OF this] yr obtain cs r' where
              *: "r = (placed @ [x]) @ r'" "mset cs = mset rest" "list_all2 ?rep cs r'" by blast
            from Inr Some have "first_match ki ii s placed = Inr (Some x)" by simp
            then obtain other where
              "other \<in> set placed" "scanner_and ki ii s other = Inr (Some x)"
              unfolding first_match_Some by fastforce
            with * have "?rep s x" by auto
            with * Cons show ?thesis
              by (intro exI [of _ "s # cs"] exI [of _ "x # r'"]) simp
          qed
        qed
      qed
    qed
  qed
  then show ?thesis by blast
qed

section \<open>The pre-filter\<close>




section \<open>The distance map of a moved cloud\<close>

text \<open>
  C7. For every cloud, every entry of the rotation table and every translation, the
  moved cloud has the same list of pairwise distances, pair by pair, and so the same
  distance map: the same keys, each with the same set of indices.
\<close>

theorem distances_invariant:
  assumes "m \<in> set ROTATIONS"
  shows "pdist (moved m t bs) = pdist bs \<and> distances (moved m t bs) = distances bs"
proof -
  have "pdist (moved m t bs) = pdist bs" using assms by (rule pdist_moved)
  moreover have "length (moved m t bs) = length bs" by (simp add: moved_def)
  ultimately show ?thesis by (simp add: distances_def)
qed

theorem distances_invariant_witness:
  "ROTATIONS ! 4 \<in> set ROTATIONS
   \<and> moved (ROTATIONS ! 4) (20, - 7, 3) [(0, 0, 0), (1, 0, 0), (0, 2, 0), (1, 2, 3)]
       = [(20, - 7, 3), (20, - 8, 3), (20, - 7, 5), (17, - 8, 5)]
   \<and> distances [(20, - 7, 3), (20, - 8, 3), (20, - 7, 5), (17, - 8, 5)]
       = distances [(0, 0, 0), (1, 0, 0), (0, 2, 0), (1, 2, 3)]"
proof -
  have mem: "ROTATIONS ! 4 \<in> set ROTATIONS" by (rule rotation_nth) simp
  have mv: "moved (ROTATIONS ! 4) (20, - 7, 3) [(0, 0, 0), (1, 0, 0), (0, 2, 0), (1, 2, 3)]
       = [(20, - 7, 3), (20, - 8, 3), (20, - 7, 5), (17, - 8, 5)]"
    by code_simp
  from distances_invariant [OF mem, of "(20, - 7, 3)" "[(0, 0, 0), (1, 0, 0), (0, 2, 0), (1, 2, 3)]"]
  show ?thesis using mem by (simp add: mv)
qed

section \<open>The greatest distance\<close>

lemma combinations2_nonempty: "2 \<le> n \<Longrightarrow> combinations2 n \<noteq> []"
proof -
  assume "2 \<le> n"
  then have "(0, 1) \<in> set (combinations2 n)" by (simp add: set_combinations2)
  then show ?thesis by auto
qed

lemma array_max_Max: "a \<noteq> [] \<Longrightarrow> array_max a = Inr (Max (set a))"
proof (cases a)
  case Nil
  assume "a \<noteq> []"
  with Nil show ?thesis by simp
next
  case (Cons x xs)
  then show ?thesis
    using Max.set_eq_fold [of x xs] by (simp add: array_max_def)
qed

lemma set_pdist_cityblock:
  "set (pdist_cityblock (map f xs))
   = {cityblock (f (xs ! i)) (f (xs ! j)) | i j. i < j \<and> j < length xs}"
  by (force simp: pdist_cityblock_def set_combinations2 image_iff)

text \<open>
  C10. For a list of exactly one placed scanner \<open>max_distance\<close> raises: there is no
  pair of positions, the array of distances is empty and its maximum is an error.
\<close>

theorem max_distance_one_scanner: "max_distance [s] = Inl ValueError"
  by (simp add: max_distance_def pdist_cityblock_def combinations2_def array_max_def)

section \<open>Two matching clouds\<close>

lemma b_a_common:
  "common_distances (distances cloud_b) (shared_keys (distances cloud_b) (distances cloud_a)) = 66"
  by code_simp

lemma b_a_pick:
  "pick_reference id id cloud_a (distances cloud_b) (distances cloud_a)
      (shared_keys (distances cloud_b) (distances cloud_a)) = Inr ((9, 0, 0), [0, 1])"
  by code_simp

lemma b_a_hits_0:
  "list_ex (\<lambda>c. 12 \<le> c) (map (hits cloud_a) (repositioned cloud_b (9, 0, 0) 0)) = False"
  by code_simp

lemma b_a_hits:
  "map (hits cloud_a) (repositioned cloud_b (9, 0, 0) (Suc 0))
   = [1, 2, 1, 1, 12, 1, 1, 2, 1, 1, 2, 1, 1, 1, 1, 1, 2, 1, 1, 1, 1, 1, 1, 1]"
  by code_simp

lemma b_a_argmax:
  "argmax [1, 2, 1, 1, 12, 1, 1, 2, 1, 1, 2, 1, 1, 1, 1, 1, 2, 1, 1, 1, 1, 1, 1, 1] = 4"
  by code_simp

lemma b_a_some:
  "list_ex (\<lambda>c. 12 \<le> c) [1, 2, 1, 1, 12, 1, 1, 2, 1, 1, 2, 1, 1, 1, 1, 1, 2, 1, 1, 1, 1, 1, 1, 1 :: nat]"
  by code_simp

lemma b_a_beacons:
  "repositioned cloud_b (9, 0, 0) (Suc 0) ! 4
   = [(8, 0, 1), (9, 0, 0), (5, 0, 2), (9, 6, 3), (2, 0, 6), (0, 5, 5),
      (5, 2, 4), (8, 9, 1), (0, 8, 8), (3, 0, 8), (3, 8, 1), (9, 8, 0)]"
  by code_simp

lemma b_a_position: "vsub (9, 0, 0) (orientations cloud_b ! 4 ! Suc 0) = (20, - 7, 3)"
  by code_simp

text \<open>The first anchor gives no match, the second does.\<close>

lemma b_a_match:
  "scanner_and id id (from_lines cloud_b) (from_lines cloud_a)
   = Inr (Some \<lparr>beacons = [(8, 0, 1), (9, 0, 0), (5, 0, 2), (9, 6, 3), (2, 0, 6), (0, 5, 5),
                             (5, 2, 4), (8, 9, 1), (0, 8, 8), (3, 0, 8), (3, 8, 1), (9, 8, 0)],
                  position = (20, - 7, 3)\<rparr>)"
proof -
  have len: "0 < length cloud_b" "Suc 0 < length cloud_b" "cloud_b \<noteq> []"
    by (simp_all add: cloud_b_def)
  have mem: "(9, 0, 0) \<in> set cloud_a" by (simp add: cloud_a_def)
  have no: "try_anchor cloud_b cloud_a (9, 0, 0) 0 = Inr None"
    by (simp add: try_anchor_counts [OF len(1) mem] counts_hits [OF len(3)] b_a_hits_0
        MIN_BEACONS_IN_COMMON_def)
  have am: "argmax (counts cloud_b cloud_a (9, 0, 0) (Suc 0)) = 4"
    by (simp only: counts_hits [OF len(3)] b_a_hits b_a_argmax)
  have ex: "list_ex (\<lambda>c. 12 \<le> c) (counts cloud_b cloud_a (9, 0, 0) (Suc 0))"
    by (simp only: counts_hits [OF len(3)] b_a_hits b_a_some)
  have "try_anchor cloud_b cloud_a (9, 0, 0) (Suc 0)
        = Inr (Some \<lparr>beacons = repositioned cloud_b (9, 0, 0) (Suc 0) ! 4,
                       position = vsub (9, 0, 0) (orientations cloud_b ! 4 ! Suc 0)\<rparr>)"
    by (simp add: try_anchor_counts [OF len(2) mem] am ex MIN_BEACONS_IN_COMMON_def)
  with no have "anchors_loop cloud_b cloud_a (9, 0, 0) [0, Suc 0]
        = Inr (Some \<lparr>beacons = repositioned cloud_b (9, 0, 0) (Suc 0) ! 4,
                       position = vsub (9, 0, 0) (orientations cloud_b ! 4 ! Suc 0)\<rparr>)"
    by simp
  moreover have "scanner_and id id (from_lines cloud_b) (from_lines cloud_a)
        = anchors_loop cloud_b cloud_a (9, 0, 0) [0, Suc 0]"
    using scanner_and_unfold [of "from_lines cloud_b" "from_lines cloud_a" id id "(9, 0, 0)" "[0, 1]"]
    by (simp add: from_lines_def b_a_common b_a_pick)
  ultimately show ?thesis by (simp only: b_a_beacons b_a_position)
qed

lemma iterates_id: "iterates id"
  by (simp add: iterates_def)

section \<open>The result of the matcher\<close>

lemma pick_reference_anchors:
  assumes "pick_reference ki ii ob (distances sb) od shared = Inr (R, anchors)" "iterates ii"
  shows "\<forall>i \<in> set anchors. i < length sb"
proof -
  from assms(1) obtain d own where "getitem (distances sb) d = Inr own" "anchors = ii own"
    by (auto simp: pick_reference_def split: sum.splits if_splits)
  then have "map_of (distances sb) d = Some own" "set anchors = set own"
    using assms(2) by (auto simp: getitem_def iterates_def split: option.splits)
  with index_sets_distances [of sb d own] show ?thesis by simp
qed

lemma counts_argmax:
  assumes "sb \<noteq> []"
  shows "argmax (counts sb ob R i) < 24"
    and "counts sb ob R i ! argmax (counts sb ob R i) = Max (set (counts sb ob R i))"
    and "\<forall>k < 24. counts sb ob R i ! k \<le> counts sb ob R i ! argmax (counts sb ob R i)"
proof -
  let ?cs = "counts sb ob R i"
  have len: "length ?cs = 24" using assms by (rule length_counts)
  then have ne: "?cs \<noteq> []" by auto
  from argmax_less [OF ne] len show "argmax ?cs < 24" by simp
  from nth_argmax [OF ne] show m: "?cs ! argmax ?cs = Max (set ?cs)" .
  show "\<forall>k < 24. ?cs ! k \<le> ?cs ! argmax ?cs"
    unfolding m using len by (intro allI impI Max_ge) auto
qed

text \<open>
  C1. When \<open>self & other\<close> returns a scanner, the matcher has a reference point \<open>R\<close> of
  \<open>other\<close> and an anchor index \<open>i\<close> of \<open>self\<close>; \<open>counts\<close> holds for each of the 24
  orientations the number of coincidences of \<open>other\<close> with \<open>self\<close> under that orientation,
  translated by \<open>R - oriented[i]\<close>; the orientation taken has the maximum count, which is
  at least 12; the beacons of the result are the points of \<open>self\<close> under it, translated
  by \<open>R - oriented[i]\<close>, and the position of the result is \<open>R - oriented[i]\<close>. Once the
  pre-filter has passed and the reference point is picked, a scanner is returned exactly
  when for one of the anchors the maximum count is at least 12; otherwise the result is
  \<open>None\<close>.
\<close>

theorem matcher_result:
  "(scanner_and key_iter idx_iter self other = Inr (Some r) \<longrightarrow>
      (\<exists>R anchors i.
          reference_of key_iter idx_iter self other = Inr (R, anchors)
          \<and> R \<in> set (beacons other) \<and> i \<in> set anchors \<and> i < length (beacons self)
          \<and> (let cs = counts (beacons self) (beacons other) R i;
                  k = argmax cs;
                  oriented = orientations (beacons self) ! k
              in k < 24
                 \<and> cs = map (hits (beacons other)) (repositioned (beacons self) R i)
                 \<and> (\<forall>k' < 24. cs ! k' \<le> cs ! k) \<and> 12 \<le> cs ! k
                 \<and> oriented = map (orient (ROTATIONS ! k)) (beacons self)
                 \<and> beacons r = map (\<lambda>p. vadd p (vsub R (oriented ! i))) oriented
                 \<and> position r = vsub R (oriented ! i))))
   \<and> (66 \<le> common_of self other \<longrightarrow>
      reference_of key_iter idx_iter self other = Inr (R', anchors') \<longrightarrow>
      iterates idx_iter \<longrightarrow>
        ((\<exists>r'. scanner_and key_iter idx_iter self other = Inr (Some r'))
           \<longleftrightarrow> (\<exists>i \<in> set anchors'. 12 \<le> Max (set (counts (beacons self) (beacons other) R' i))))
        \<and> (scanner_and key_iter idx_iter self other = Inr None
           \<longleftrightarrow> \<not> (\<exists>i \<in> set anchors'. 12 \<le> Max (set (counts (beacons self) (beacons other) R' i)))))"
proof (intro conjI impI)
  let ?sb = "beacons self" and ?ob = "beacons other"
  assume acc: "scanner_and key_iter idx_iter self other = Inr (Some r)"
  from scanner_and_Some [OF acc] obtain R anchors where
    pick: "reference_of key_iter idx_iter self other = Inr (R, anchors)"
    and loop: "anchors_loop ?sb ?ob R anchors = Inr (Some r)" by blast
  from anchors_loop_Some [OF loop] obtain i where
    i: "i \<in> set anchors" "try_anchor ?sb ?ob R i = Inr (Some r)" by blast
  from try_anchor_Some [OF i(2)] have
    ilt: "i < length ?sb" and ex: "list_ex (\<lambda>c. 12 \<le> c) (counts ?sb ?ob R i)"
    and br: "beacons r = repositioned ?sb R i ! argmax (counts ?sb ?ob R i)"
    and pr: "position r = vsub R (orientations ?sb ! argmax (counts ?sb ?ob R i) ! i)"
    by simp_all
  from ilt have ne: "?sb \<noteq> []" by auto
  let ?cs = "counts ?sb ?ob R i"
  note am = counts_argmax [OF ne, of ?ob R i]
  have "?cs \<noteq> []" using length_counts [OF ne, of ?ob R i] by auto
  with ex have "12 \<le> Max (set ?cs)" by (simp add: list_ex_Max)
  with am(2) have twelve: "12 \<le> ?cs ! argmax ?cs" by simp
  have "let cs = ?cs; k = argmax cs; oriented = orientations ?sb ! k
        in k < 24 \<and> cs = map (hits ?ob) (repositioned ?sb R i)
           \<and> (\<forall>k' < 24. cs ! k' \<le> cs ! k) \<and> 12 \<le> cs ! k
           \<and> oriented = map (orient (ROTATIONS ! k)) ?sb
           \<and> beacons r = map (\<lambda>p. vadd p (vsub R (oriented ! i))) oriented
           \<and> position r = vsub R (oriented ! i)"
    unfolding Let_def
    using am twelve br pr counts_hits [OF ne, of ?ob R i]
    by (simp add: orientations_nth repositioned_nth)
  with pick pick_reference_member [OF pick] i(1) ilt
  show "\<exists>R anchors i.
          reference_of key_iter idx_iter self other = Inr (R, anchors)
          \<and> R \<in> set ?ob \<and> i \<in> set anchors \<and> i < length ?sb
          \<and> (let cs = counts ?sb ?ob R i; k = argmax cs; oriented = orientations ?sb ! k
              in k < 24 \<and> cs = map (hits ?ob) (repositioned ?sb R i)
                 \<and> (\<forall>k' < 24. cs ! k' \<le> cs ! k) \<and> 12 \<le> cs ! k
                 \<and> oriented = map (orient (ROTATIONS ! k)) ?sb
                 \<and> beacons r = map (\<lambda>p. vadd p (vsub R (oriented ! i))) oriented
                 \<and> position r = vsub R (oriented ! i))"
    by blast
next
  let ?sb = "beacons self" and ?ob = "beacons other"
  assume pre: "66 \<le> common_of self other"
    and pick: "reference_of key_iter idx_iter self other = Inr (R', anchors')"
    and it: "iterates idx_iter"
  have eq: "scanner_and key_iter idx_iter self other = anchors_loop ?sb ?ob R' anchors'"
    using pre pick by (rule scanner_and_unfold)
  have mem: "R' \<in> set ?ob" using pick by (rule pick_reference_member)
  have rng: "\<forall>i \<in> set anchors'. i < length ?sb" using pick it by (rule pick_reference_anchors)
  have mx: "list_ex (\<lambda>c. 12 \<le> c) (counts ?sb ?ob R' i) \<longleftrightarrow> 12 \<le> Max (set (counts ?sb ?ob R' i))"
    if "i \<in> set anchors'" for i
  proof -
    from that rng have "?sb \<noteq> []" by auto
    from length_counts [OF this, of ?ob R' i] have "counts ?sb ?ob R' i \<noteq> []" by auto
    then show ?thesis by (rule list_ex_Max)
  qed
  show "(\<exists>r'. scanner_and key_iter idx_iter self other = Inr (Some r'))
        \<longleftrightarrow> (\<exists>i \<in> set anchors'. 12 \<le> Max (set (counts ?sb ?ob R' i)))"
    unfolding eq anchors_loop_accepts(1) [OF mem rng] using mx by blast
  show "scanner_and key_iter idx_iter self other = Inr None
        \<longleftrightarrow> \<not> (\<exists>i \<in> set anchors'. 12 \<le> Max (set (counts ?sb ?ob R' i)))"
    unfolding eq anchors_loop_accepts(2) [OF mem rng] using mx by blast
qed

theorem matcher_result_witness:
  "scanner_and id id (from_lines cloud_b) (from_lines cloud_a)
     = Inr (Some \<lparr>beacons = [(8, 0, 1), (9, 0, 0), (5, 0, 2), (9, 6, 3), (2, 0, 6), (0, 5, 5),
                               (5, 2, 4), (8, 9, 1), (0, 8, 8), (3, 0, 8), (3, 8, 1), (9, 8, 0)],
                    position = (20, - 7, 3)\<rparr>)
   \<and> (\<exists>R anchors i k.
          reference_of id id (from_lines cloud_b) (from_lines cloud_a) = Inr (R, anchors)
          \<and> i \<in> set anchors \<and> k < 24
          \<and> 12 \<le> counts (beacons (from_lines cloud_b)) (beacons (from_lines cloud_a)) R i ! k
          \<and> (20, - 7, 3) = vsub R (orientations (beacons (from_lines cloud_b)) ! k ! i))
   \<and> 66 \<le> common_of (from_lines cloud_b) (from_lines cloud_a)
   \<and> reference_of id id (from_lines cloud_b) (from_lines cloud_a) = Inr ((9, 0, 0), [0, 1])
   \<and> iterates (id :: nat list \<Rightarrow> nat list)
   \<and> (\<exists>i. i \<in> set [0, 1]
         \<and> 12 \<le> Max (set (counts (beacons (from_lines cloud_b)) (beacons (from_lines cloud_a))
                            (9, 0, 0) i)))"
proof -
  let ?r = "\<lparr>beacons = [(8, 0, 1), (9, 0, 0), (5, 0, 2), (9, 6, 3), (2, 0, 6), (0, 5, 5),
                          (5, 2, 4), (8, 9, 1), (0, 8, 8), (3, 0, 8), (3, 8, 1), (9, 8, 0)],
               position = (20, - 7, 3)\<rparr>"
  note inst = matcher_result [of id id "from_lines cloud_b" "from_lines cloud_a" ?r "(9, 0, 0)" "[0, 1]"]
  have pre: "66 \<le> common_of (from_lines cloud_b) (from_lines cloud_a)"
    by (simp add: from_lines_def b_a_common)
  have pick: "reference_of id id (from_lines cloud_b) (from_lines cloud_a) = Inr ((9, 0, 0), [0, 1])"
    by (simp add: from_lines_def b_a_pick)
  from inst [THEN conjunct1, THEN mp, OF b_a_match]
  obtain R anchors i where
    ref: "reference_of id id (from_lines cloud_b) (from_lines cloud_a) = Inr (R, anchors)"
    and anchor: "i \<in> set anchors"
    and rest: "let cs = counts (beacons (from_lines cloud_b)) (beacons (from_lines cloud_a)) R i;
         k = argmax cs; oriented = orientations (beacons (from_lines cloud_b)) ! k
     in k < 24 \<and> cs = map (hits (beacons (from_lines cloud_a)))
                        (repositioned (beacons (from_lines cloud_b)) R i)
        \<and> (\<forall>k' < 24. cs ! k' \<le> cs ! k) \<and> 12 \<le> cs ! k
        \<and> oriented = map (orient (ROTATIONS ! k)) (beacons (from_lines cloud_b))
        \<and> beacons ?r = map (\<lambda>p. vadd p (vsub R (oriented ! i))) oriented
        \<and> position ?r = vsub R (oriented ! i)"
    by blast
  note parts = rest [unfolded Let_def]
  note k24 = parts [THEN conjunct1]
  note twelve = parts [THEN conjunct2, THEN conjunct2, THEN conjunct2, THEN conjunct1]
  note pos = parts [THEN conjunct2, THEN conjunct2, THEN conjunct2, THEN conjunct2,
                    THEN conjunct2, THEN conjunct2]
  from pos have pos': "(20, - 7, 3) = vsub R (orientations (beacons (from_lines cloud_b))
      ! argmax (counts (beacons (from_lines cloud_b)) (beacons (from_lines cloud_a)) R i) ! i)"
    by simp
  from ref anchor k24 twelve pos'
  have first: "\<exists>R anchors i k.
          reference_of id id (from_lines cloud_b) (from_lines cloud_a) = Inr (R, anchors)
          \<and> i \<in> set anchors \<and> k < 24
          \<and> 12 \<le> counts (beacons (from_lines cloud_b)) (beacons (from_lines cloud_a)) R i ! k
          \<and> (20, - 7, 3) = vsub R (orientations (beacons (from_lines cloud_b)) ! k ! i)"
    by blast
  have "\<exists>r'. scanner_and id id (from_lines cloud_b) (from_lines cloud_a) = Inr (Some r')"
    using b_a_match by blast
  with inst [THEN conjunct2, THEN mp, OF pre, THEN mp, OF pick, THEN mp, OF iterates_id]
  have second: "\<exists>i. i \<in> set [0, 1]
         \<and> 12 \<le> Max (set (counts (beacons (from_lines cloud_b)) (beacons (from_lines cloud_a))
                            (9, 0, 0) i))"
    by blast
  from b_a_match first pre pick iterates_id second show ?thesis by blast
qed

section \<open>The alignment driver\<close>

lemma scanner_and_below:
  "common_of self other < 66 \<Longrightarrow> scanner_and ki ii self other = Inr None"
  by (simp add: scanner_and_def Let_def MIN_COMMON_DISTANCES_66)

lemma apart_common:
  "common_of (from_lines [(0, 0, 0), (0, 2, 0)]) (from_lines [(0, 0, 0), (1, 0, 0)]) = 0"
  by code_simp

lemma apart_no_match:
  "first_match ki ii (from_lines [(0, 0, 0), (0, 2, 0)]) [from_lines [(0, 0, 0), (1, 0, 0)]] = Inr None"
  by (simp add: scanner_and_below apart_common)

text \<open>
  C3, as the code has it. The driver keeps no count of passes and compares no queue
  sizes. From a state in which the queue is not empty and no queued cloud matches any
  placed cloud, it puts each cloud back at the tail for ever: the call never returns,
  so it reports nothing.
\<close>

theorem driver_loops_without_progress:
  assumes "to_position \<noteq> []"
    and "\<forall>scanner \<in> set to_position. \<forall>other \<in> set positioned.
           scanner_and key_iter idx_iter scanner other = Inr None"
  shows "position_loop key_iter idx_iter to_position positioned = None"
  using assms by (intro position_loop_stuck) (simp_all add: first_match_None)

theorem driver_loops_without_progress_witness:
  "[from_lines [(0, 0, 0), (0, 2, 0)]] \<noteq> []
   \<and> scanner_and id id (from_lines [(0, 0, 0), (0, 2, 0)]) (from_lines [(0, 0, 0), (1, 0, 0)]) = Inr None
   \<and> position_loop id id [from_lines [(0, 0, 0), (0, 2, 0)]] [from_lines [(0, 0, 0), (1, 0, 0)]] = None"
proof -
  have no: "scanner_and id id (from_lines [(0, 0, 0), (0, 2, 0)]) (from_lines [(0, 0, 0), (1, 0, 0)])
            = Inr None"
    by (simp add: scanner_and_below apart_common)
  from driver_loops_without_progress
         [of "[from_lines [(0, 0, 0), (0, 2, 0)]]" "[from_lines [(0, 0, 0), (1, 0, 0)]]" id id] no
  show ?thesis by simp
qed

text \<open>
  Two clouds of two points each, 1 and 2 apart: they share no distance, and the driver
  does not return, where the claim has it report an unsolvable input.
\<close>

theorem driver_reports_nothing_counterexample:
  "positioned_scanners id id (from_text [[(0, 0, 0), (1, 0, 0)], [(0, 0, 0), (0, 2, 0)]]) = None"
proof -
  have "position_loop id id [from_lines [(0, 0, 0), (0, 2, 0)]] [from_lines [(0, 0, 0), (1, 0, 0)]]
        = None"
    by (rule position_loop_stuck) (simp_all add: apart_no_match del: first_match.simps)
  then show ?thesis by (simp add: positioned_scanners_def from_text_def)
qed

lemma a_b_first_match:
  "first_match id id (from_lines cloud_b) [from_lines cloud_a]
   = Inr (Some \<lparr>beacons = [(8, 0, 1), (9, 0, 0), (5, 0, 2), (9, 6, 3), (2, 0, 6), (0, 5, 5),
                             (5, 2, 4), (8, 9, 1), (0, 8, 8), (3, 0, 8), (3, 8, 1), (9, 8, 0)],
                  position = (20, - 7, 3)\<rparr>)"
  by (simp add: b_a_match)

lemma a_b_run:
  "positioned_scanners id id (from_text [cloud_a, cloud_b])
   = Some (Inr [from_lines cloud_a,
                \<lparr>beacons = [(8, 0, 1), (9, 0, 0), (5, 0, 2), (9, 6, 3), (2, 0, 6), (0, 5, 5),
                             (5, 2, 4), (8, 9, 1), (0, 8, 8), (3, 0, 8), (3, 8, 1), (9, 8, 0)],
                  position = (20, - 7, 3)\<rparr>])"
  by (simp add: positioned_scanners_def from_text_def position_loop_placed [OF a_b_first_match]
      position_loop_Nil)

text \<open>
  C4. The driver seeds the placed list with the first cloud, whose position is
  \<open>(0, 0, 0)\<close> and whose points are unchanged, and queues the others. With an empty
  queue the loop returns the placed list. Otherwise it takes the head of the queue and
  tries the placed clouds in order up to the first match: on a match the result goes to
  the end of the placed list, on no match at all the candidate goes to the tail of the
  queue. A return comes from the empty queue only: the returned list is the seed followed
  by one match for each queued cloud, each against a cloud of the list, so it is as long
  as the input. When every queued cloud matches a placed one, the loop returns.
\<close>

theorem driver_steps:
  "positioned_scanners key_iter idx_iter (from_text (block # blocks))
     = position_loop key_iter idx_iter (map from_lines blocks) [from_lines block]
   \<and> position (from_lines block) = (0, 0, 0) \<and> beacons (from_lines block) = block
   \<and> position_loop key_iter idx_iter [] positioned = Some (Inr positioned)
   \<and> (first_match key_iter idx_iter scanner positioned = Inr (Some placed) \<longrightarrow>
        position_loop key_iter idx_iter (scanner # rest) positioned
        = position_loop key_iter idx_iter rest (positioned @ [placed]))
   \<and> (first_match key_iter idx_iter scanner positioned = Inr None \<longrightarrow>
        position_loop key_iter idx_iter (scanner # rest) positioned
        = position_loop key_iter idx_iter (rest @ [scanner]) positioned)
   \<and> (first_match key_iter idx_iter scanner positioned = Inr (Some placed) \<longleftrightarrow>
        (\<exists>before other after. positioned = before @ other # after
           \<and> (\<forall>p \<in> set before. scanner_and key_iter idx_iter scanner p = Inr None)
           \<and> scanner_and key_iter idx_iter scanner other = Inr (Some placed)))
   \<and> (first_match key_iter idx_iter scanner positioned = Inr None \<longleftrightarrow>
        (\<forall>other \<in> set positioned. scanner_and key_iter idx_iter scanner other = Inr None))
   \<and> (positioned_scanners key_iter idx_iter bm = Some (Inr result) \<longrightarrow>
        (\<exists>first queue cs matched.
           scanners bm = first # queue \<and> result = first # matched \<and> mset cs = mset queue
           \<and> list_all2 (\<lambda>c x. \<exists>other \<in> set result.
                           scanner_and key_iter idx_iter c other = Inr (Some x)) cs matched
           \<and> length result = length (scanners bm)))
   \<and> ((\<forall>s \<in> set queue'. \<exists>x. first_match key_iter idx_iter s positioned = Inr (Some x)) \<longrightarrow>
        (\<exists>r. position_loop key_iter idx_iter queue' positioned = Some (Inr r)
             \<and> length r = length positioned + length queue'))"
proof -
  have seed: "positioned_scanners key_iter idx_iter (from_text (block # blocks))
     = position_loop key_iter idx_iter (map from_lines blocks) [from_lines block]"
    by (simp add: positioned_scanners_def from_text_def)
  have res: "\<exists>first queue cs matched.
           scanners bm = first # queue \<and> result = first # matched \<and> mset cs = mset queue
           \<and> list_all2 (\<lambda>c x. \<exists>other \<in> set result.
                           scanner_and key_iter idx_iter c other = Inr (Some x)) cs matched
           \<and> length result = length (scanners bm)"
    if run: "positioned_scanners key_iter idx_iter bm = Some (Inr result)"
  proof (cases "scanners bm")
    case Nil
    with run show ?thesis by (simp add: positioned_scanners_def)
  next
    case (Cons first queue)
    with run have "position_loop key_iter idx_iter queue [first] = Some (Inr result)"
      by (simp add: positioned_scanners_def)
    from position_loop_result [OF this] obtain cs matched where
      *: "result = [first] @ matched" "mset cs = mset queue"
         "list_all2 (\<lambda>c x. \<exists>other \<in> set result.
                       scanner_and key_iter idx_iter c other = Inr (Some x)) cs matched"
      by blast
    from *(3) have "length cs = length matched" by (rule list_all2_lengthD)
    moreover from *(2) have "length cs = length queue" by (metis size_mset)
    ultimately have "length result = length (scanners bm)" using *(1) Cons by simp
    with * Cons show ?thesis by auto
  qed
  show ?thesis
    using seed res position_loop_returns [of queue' key_iter idx_iter positioned]
    by (simp add: from_lines_def position_loop_Nil position_loop_placed position_loop_requeue
        first_match_Some first_match_None del: ex_simps)
qed

theorem driver_steps_witness:
  "first_match id id (from_lines cloud_b) [from_lines cloud_a]
     = Inr (Some \<lparr>beacons = [(8, 0, 1), (9, 0, 0), (5, 0, 2), (9, 6, 3), (2, 0, 6), (0, 5, 5),
                               (5, 2, 4), (8, 9, 1), (0, 8, 8), (3, 0, 8), (3, 8, 1), (9, 8, 0)],
                    position = (20, - 7, 3)\<rparr>)
   \<and> position_loop id id [from_lines cloud_b] [from_lines cloud_a]
     = position_loop id id []
         ([from_lines cloud_a] @
          [\<lparr>beacons = [(8, 0, 1), (9, 0, 0), (5, 0, 2), (9, 6, 3), (2, 0, 6), (0, 5, 5),
                        (5, 2, 4), (8, 9, 1), (0, 8, 8), (3, 0, 8), (3, 8, 1), (9, 8, 0)],
            position = (20, - 7, 3)\<rparr>])
   \<and> positioned_scanners id id (from_text [cloud_a, cloud_b])
     = Some (Inr [from_lines cloud_a,
                  \<lparr>beacons = [(8, 0, 1), (9, 0, 0), (5, 0, 2), (9, 6, 3), (2, 0, 6), (0, 5, 5),
                               (5, 2, 4), (8, 9, 1), (0, 8, 8), (3, 0, 8), (3, 8, 1), (9, 8, 0)],
                    position = (20, - 7, 3)\<rparr>])
   \<and> length [from_lines cloud_a,
             \<lparr>beacons = [(8, 0, 1), (9, 0, 0), (5, 0, 2), (9, 6, 3), (2, 0, 6), (0, 5, 5),
                          (5, 2, 4), (8, 9, 1), (0, 8, 8), (3, 0, 8), (3, 8, 1), (9, 8, 0)],
               position = (20, - 7, 3)\<rparr>]
     = length (scanners (from_text [cloud_a, cloud_b]))"
proof -
  let ?r = "\<lparr>beacons = [(8, 0, 1), (9, 0, 0), (5, 0, 2), (9, 6, 3), (2, 0, 6), (0, 5, 5),
                          (5, 2, 4), (8, 9, 1), (0, 8, 8), (3, 0, 8), (3, 8, 1), (9, 8, 0)],
               position = (20, - 7, 3)\<rparr>"
  note st = driver_steps [where key_iter = id and idx_iter = id
      and scanner = "from_lines cloud_b" and positioned = "[from_lines cloud_a]"
      and placed = ?r and rest = "[]" and bm = "from_text [cloud_a, cloud_b]"
      and result = "[from_lines cloud_a, ?r]"]
  note step = st [THEN conjunct2, THEN conjunct2, THEN conjunct2, THEN conjunct2, THEN conjunct1]
  note len = st [THEN conjunct2, THEN conjunct2, THEN conjunct2, THEN conjunct2, THEN conjunct2,
                 THEN conjunct2, THEN conjunct2, THEN conjunct2, THEN conjunct1]
  from step a_b_first_match len a_b_run show ?thesis by blast
qed

section \<open>The matcher and the arrays of its arguments\<close>

subsection \<open>Reading the store\<close>

lemma fold_select_None: "fold (\<lambda>v a. Option.bind a (select v)) vs None = None"
  by (induction vs) simp_all

lemma deref_view_of: "deref h (view_of r v) = Option.bind (deref h r) (select v)"
  by (simp add: deref_def view_of_def)

lemma buffer_view_of: "buffer (view_of r v) = buffer r"
  by (simp add: view_of_def)

lemma deref_buffer: "deref h r = Some v \<Longrightarrow> arrays h (buffer r) \<noteq> None"
  by (cases "arrays h (buffer r)") (auto simp: deref_def fold_select_None)

lemma deref_in_use: "wf_heap h \<Longrightarrow> deref h r = Some v \<Longrightarrow> buffer r < limit h"
  using deref_buffer [of h r v] by (simp add: wf_heap_def)

lemma keeps_refl: "keeps h h"
  by (simp add: keeps_def option.rel_refl)

lemma keeps_trans:
  assumes "keeps h1 h2" "keeps h2 h3"
  shows "keeps h1 h3"
proof -
  have "rel_option (\<lambda>obj obj'. beacons_ref obj' = beacons_ref obj
                                  \<and> position_ref obj' = position_ref obj)
              (objects h1 x) (objects h3 x)" if "x < limit h1" for x
  proof -
    from that assms have a: "rel_option (\<lambda>obj obj'. beacons_ref obj' = beacons_ref obj
                                  \<and> position_ref obj' = position_ref obj)
              (objects h1 x) (objects h2 x)"
      and b: "rel_option (\<lambda>obj obj'. beacons_ref obj' = beacons_ref obj
                                  \<and> position_ref obj' = position_ref obj)
              (objects h2 x) (objects h3 x)"
      by (auto simp: keeps_def)
    then show ?thesis
      by (cases "objects h1 x"; cases "objects h2 x"; cases "objects h3 x") auto
  qed
  with assms show ?thesis by (auto simp: keeps_def)
qed

lemma keeps_limit: "keeps h h' \<Longrightarrow> limit h \<le> limit h'"
  by (simp add: keeps_def)

lemma keeps_deref: "keeps h h' \<Longrightarrow> buffer r < limit h \<Longrightarrow> deref h' r = deref h r"
  by (simp add: keeps_def deref_def)

lemma keeps_deref_Some:
  "wf_heap h \<Longrightarrow> keeps h h' \<Longrightarrow> deref h r = Some v \<Longrightarrow> deref h' r = Some v"
  using keeps_deref [of h h' r] deref_in_use [of h r v] by simp

lemma keeps_object:
  assumes "wf_heap h" "keeps h h'" "objects h x = Some obj"
  obtains obj' where "objects h' x = Some obj'" "beacons_ref obj' = beacons_ref obj"
    "position_ref obj' = position_ref obj"
proof -
  from assms(1,3) have "x < limit h" by (auto simp: wf_heap_def)
  with assms(2) have "rel_option (\<lambda>obj obj'. beacons_ref obj' = beacons_ref obj
                                  \<and> position_ref obj' = position_ref obj)
              (objects h x) (objects h' x)" by (simp add: keeps_def)
  with assms(3) that show thesis by (cases "objects h' x") auto
qed

lemma keeps_load:
  assumes "wf_heap h" "keeps h h'" "load h x = Some s"
  shows "load h' x = Some s"
proof -
  from assms(3) obtain obj where obj: "objects h x = Some obj"
    by (auto simp: load_def split: Option.bind_splits)
  from assms(3) obj obtain bs p where
    d: "deref h (beacons_ref obj) = Some (Rows bs)" "deref h (position_ref obj) = Some (Vec p)"
    and s: "s = \<lparr>beacons = bs, position = p\<rparr>"
    by (auto simp: load_def split: option.splits ndarray.splits)
  from keeps_object [OF assms(1,2) obj] obtain obj' where
    obj': "objects h' x = Some obj'" "beacons_ref obj' = beacons_ref obj"
    "position_ref obj' = position_ref obj" .
  from d have "deref h' (beacons_ref obj) = Some (Rows bs)" "deref h' (position_ref obj) = Some (Vec p)"
    using keeps_deref_Some [OF assms(1,2)] by auto
  with obj' s show ?thesis by (simp add: load_def)
qed

lemma cache_ok_keeps:
  assumes "wf_heap h" "keeps h h'" "cache_ok h obj"
  shows "cache_ok h' obj"
proof -
  from assms(3) obtain bs where bs: "deref h (beacons_ref obj) = Some (Rows bs)"
    by (auto simp: cache_ok_def split: option.splits ndarray.splits)
  then have bs': "deref h' (beacons_ref obj) = Some (Rows bs)"
    by (rule keeps_deref_Some [OF assms(1,2)])
  have "deref h' r = Some (Blocks (orientations bs))" if "orientations_cache obj = Some r" for r
  proof -
    from that assms(3) bs have "deref h r = Some (Blocks (orientations bs))"
      by (simp add: cache_ok_def)
    then show ?thesis by (rule keeps_deref_Some [OF assms(1,2)])
  qed
  with assms(3) bs bs' show ?thesis
    by (auto simp: cache_ok_def split: option.splits)
qed

lemma load_obj:
  assumes "wf_heap h" "load h x = Some s"
  obtains obj where "objects h x = Some obj" "deref h (beacons_ref obj) = Some (Rows (beacons s))"
    "deref h (position_ref obj) = Some (Vec (position s))" "cache_ok h obj"
proof -
  from assms(2) obtain obj where obj: "objects h x = Some obj"
    by (auto simp: load_def split: Option.bind_splits)
  from assms(2) obj have "deref h (beacons_ref obj) = Some (Rows (beacons s))"
    "deref h (position_ref obj) = Some (Vec (position s))"
    by (auto simp: load_def split: option.splits ndarray.splits)
  moreover from assms(1) obj have "cache_ok h obj" by (auto simp: wf_heap_def)
  ultimately show thesis using obj that by blast
qed

subsection \<open>New arrays\<close>

lemma np_new_spec:
  assumes wf: "wf_heap h" and new: "np_new h x = (r, h')"
  shows "wf_heap h'" "keeps h h'" "deref h' r = Some x" "buffer r = limit h"
proof -
  from new have r: "r = \<lparr>buffer = limit h, views = []\<rparr>"
    and h': "h' = h\<lparr>arrays := (arrays h)(limit h \<mapsto> x), limit := Suc (limit h)\<rparr>"
    by (auto simp: np_new_def)
  show k: "keeps h h'" by (simp add: h' keeps_def option.rel_refl)
  show "deref h' r = Some x" by (simp add: r h' deref_def)
  show "buffer r = limit h" by (simp add: r)
  have "cache_ok h' obj \<and> (\<exists>p. deref h' (position_ref obj) = Some (Vec p))"
    if "objects h' y = Some obj" for y obj
  proof -
    from that have "objects h y = Some obj" by (simp add: h')
    with wf have "cache_ok h obj" and "\<exists>p. deref h (position_ref obj) = Some (Vec p)"
      by (auto simp: wf_heap_def)
    then show ?thesis
      using cache_ok_keeps [OF wf k] keeps_deref_Some [OF wf k] by blast
  qed
  moreover have "\<forall>a. arrays h' a \<noteq> None \<longrightarrow> a < limit h'"
    using wf by (auto simp: h' wf_heap_def less_Suc_eq)
  moreover have "\<forall>y. objects h' y \<noteq> None \<longrightarrow> y < limit h'"
    using wf by (auto simp: h' wf_heap_def less_Suc_eq)
  ultimately show "wf_heap h'" unfolding wf_heap_def by blast
qed

lemma np_op1_spec:
  assumes "wf_heap h" "deref h a = Some v" "f v = Some x"
  shows "\<exists>r h'. np_op1 f h a = Some (r, h') \<and> wf_heap h' \<and> keeps h h'
           \<and> deref h' r = Some x \<and> buffer r = limit h"
proof -
  obtain r h' where new: "np_new h x = (r, h')" by (cases "np_new h x")
  with assms have "np_op1 f h a = Some (r, h')" by (simp add: np_op1_def)
  with np_new_spec [OF assms(1) new] show ?thesis by blast
qed

lemma np_op2_spec:
  assumes "wf_heap h" "deref h a = Some v" "deref h b = Some w" "f v w = Some x"
  shows "\<exists>r h'. np_op2 f h a b = Some (r, h') \<and> wf_heap h' \<and> keeps h h'
           \<and> deref h' r = Some x \<and> buffer r = limit h"
proof -
  obtain r h' where new: "np_new h x = (r, h')" by (cases "np_new h x")
  with assms have "np_op2 f h a b = Some (r, h')" by (simp add: np_op2_def)
  with np_new_spec [OF assms(1) new] show ?thesis by blast
qed

text \<open>
  The assignment to a sparse matrix writes into a buffer. The buffer is the one the
  matrix got when it was made, so the store before the matrix was made is kept.
\<close>

lemma lil_assign_spec:
  assumes wf: "wf_heap h" and new: "np_new h (Sparse rows) = (m, h1)"
  obtains h2 where "lil_assign h1 m entries = Some h2" "wf_heap h2" "keeps h h2"
    "deref h2 m = Some (Sparse (foldl (\<lambda>t (i, j). t[i := (t ! i)[j := True]]) rows entries))"
    "buffer m = limit h"
proof -
  let ?x = "Sparse (foldl (\<lambda>t (i, j). t[i := (t ! i)[j := True]]) rows entries)"
  obtain h2 where h2: "np_new h ?x = (m, h2)"
    using new by (auto simp: np_new_def)
  from new have "lil_assign h1 m entries = Some h2"
    using h2 by (auto simp: np_new_def lil_assign_def)
  with np_new_spec [OF wf h2] that show thesis by blast
qed

text \<open>
  The assignment is seen through every array object that shares the buffer, and a
  store that keeps another has no assignment to a buffer of the other.
\<close>

lemma lil_assign_shared:
  assumes "lil_assign h m entries = Some h'" and "buffer r = buffer m" and "views r = []"
  shows "\<exists>rows. arrays h (buffer m) = Some (Sparse rows)
           \<and> deref h' r
               = Some (Sparse (foldl (\<lambda>t (i, j). t[i := (t ! i)[j := True]]) rows entries))"
  using assms
  by (auto simp: lil_assign_def deref_def split: list.splits option.splits ndarray.splits)

lemma keeps_no_assignment:
  assumes "keeps h h'" and "lil_assign h m entries = Some h'" and "buffer m < limit h"
  shows "arrays h' (buffer m) = arrays h (buffer m)"
  using assms by (simp add: keeps_def)

subsection \<open>The cached properties\<close>

lemma set_cache_spec:
  assumes wf: "wf_heap h" and obj: "objects h x = Some obj"
    and same: "beacons_ref obj' = beacons_ref obj" "position_ref obj' = position_ref obj"
    and ok: "cache_ok h obj'"
    and h': "h' = h\<lparr>objects := (objects h)(x \<mapsto> obj')\<rparr>"
  shows "wf_heap h'" "keeps h h'"
proof -
  have d: "deref h' r = deref h r" for r by (simp add: h' deref_def)
  have c: "cache_ok h' o' = cache_ok h o'" for o' by (simp only: cache_ok_def d)
  show "keeps h h'" using obj same by (auto simp: h' keeps_def option.rel_refl)
  have "cache_ok h' o' \<and> (\<exists>p. deref h' (position_ref o') = Some (Vec p))"
    if "objects h' y = Some o'" for y o'
  proof (cases "y = x")
    case True
    with that have "o' = obj'" by (simp add: h')
    moreover from wf obj have "\<exists>p. deref h (position_ref obj) = Some (Vec p)"
      by (auto simp: wf_heap_def)
    ultimately show ?thesis using ok same by (simp add: c d)
  next
    case False
    with that have "objects h y = Some o'" by (simp add: h')
    with wf show ?thesis by (auto simp: wf_heap_def c d)
  qed
  moreover have "\<forall>a. arrays h' a \<noteq> None \<longrightarrow> a < limit h'"
    using wf by (auto simp: h' wf_heap_def)
  moreover have "\<forall>y. objects h' y \<noteq> None \<longrightarrow> y < limit h'"
    using wf obj by (auto simp: h' wf_heap_def)
  ultimately show "wf_heap h'" unfolding wf_heap_def by blast
qed

lemma deref_objects_update: "deref (h\<lparr>objects := f\<rparr>) r = deref h r"
  by (simp add: deref_def)

lemma distances_obj_spec:
  assumes wf: "wf_heap h" and ld: "load h x = Some s"
  obtains h' where "distances_obj h x = Some (distances (beacons s), h')" "wf_heap h'" "keeps h h'"
proof -
  from load_obj [OF wf ld] obtain obj where obj: "objects h x = Some obj"
    and b: "deref h (beacons_ref obj) = Some (Rows (beacons s))"
    and ok: "cache_ok h obj" by blast
  show thesis
  proof (cases "distances_cache obj")
    case (Some d)
    with ok b have "d = distances (beacons s)" by (simp add: cache_ok_def)
    with Some obj have "distances_obj h x = Some (distances (beacons s), h)"
      by (simp add: distances_obj_def)
    with wf keeps_refl that show thesis by blast
  next
    case None
    from np_op1_spec [OF wf b, where f = np_pdist and x = "Dists (pdist (beacons s))"]
    obtain pd h1 where op: "np_op1 np_pdist h (beacons_ref obj) = Some (pd, h1)"
      and wf1: "wf_heap h1" and k1: "keeps h h1"
      and pd: "deref h1 pd = Some (Dists (pdist (beacons s)))" by auto
    let ?obj' = "obj\<lparr>distances_cache := Some (distances (beacons s))\<rparr>"
    let ?h' = "h1\<lparr>objects := (objects h1)(x \<mapsto> ?obj')\<rparr>"
    from None obj b op pd have call: "distances_obj h x = Some (distances (beacons s), ?h')"
      by (simp add: distances_obj_def read_rows_def distances_def Let_def)
    from keeps_object [OF wf k1 obj] obtain obj1 where obj1: "objects h1 x = Some obj1"
      "beacons_ref obj1 = beacons_ref obj" "position_ref obj1 = position_ref obj" .
    have "cache_ok h1 obj" using wf k1 ok by (rule cache_ok_keeps)
    then have ok': "cache_ok h1 ?obj'"
      using keeps_deref_Some [OF wf k1 b]
      by (auto simp: cache_ok_def split: option.splits)
    have "wf_heap ?h'" "keeps h1 ?h'"
      using set_cache_spec [OF wf1 obj1(1) _ _ ok', of ?h'] obj1 by simp_all
    with k1 call that show thesis using keeps_trans by blast
  qed
qed

lemma pad_rows:
  "map (\<lambda>((x, y, z), row). [x, y, z] @ row) (zip bs (map (\<lambda>_. [1]) bs))
   = map (\<lambda>(x, y, z). [x, y, z, 1]) bs"
  by (induction bs) auto

lemma unpad_turned:
  "map (map (\<lambda>row. let r = butlast row in (r ! 0, r ! 1, r ! 2)))
     (map (\<lambda>m. map (\<lambda>row. vecmat row m) (map (\<lambda>(x, y, z). [x, y, z, 1]) bs)) ROTATIONS)
   = orientations bs"
  unfolding orientations_def
  by (simp add: orient_def comp_def split_def)

lemma orientations_obj_spec:
  assumes wf: "wf_heap h" and ld: "load h x = Some s"
  obtains r h' where "orientations_obj h x = Some (r, h')" "wf_heap h'" "keeps h h'"
    "deref h' r = Some (Blocks (orientations (beacons s)))"
proof -
  from load_obj [OF wf ld] obtain obj where obj: "objects h x = Some obj"
    and b: "deref h (beacons_ref obj) = Some (Rows (beacons s))"
    and ok: "cache_ok h obj" by blast
  show thesis
  proof (cases "orientations_cache obj")
    case (Some r)
    with ok b have "deref h r = Some (Blocks (orientations (beacons s)))"
      by (simp add: cache_ok_def)
    moreover from Some obj have "orientations_obj h x = Some (r, h)"
      by (simp add: orientations_obj_def)
    ultimately show thesis using wf keeps_refl that by blast
  next
    case None
    let ?aug = "map (\<lambda>(x, y, z). [x, y, z, 1]) (beacons s)"
    from np_op1_spec [OF wf b, where f = np_ones and x = "Padded (map (\<lambda>_. [1]) (beacons s))"]
    obtain ones h1 where op1: "np_op1 np_ones h (beacons_ref obj) = Some (ones, h1)"
      and wf1: "wf_heap h1" and k1: "keeps h h1"
      and ones: "deref h1 ones = Some (Padded (map (\<lambda>_. [1]) (beacons s)))" by auto
    have b1: "deref h1 (beacons_ref obj) = Some (Rows (beacons s))"
      using wf k1 b by (rule keeps_deref_Some)
    from np_op2_spec [OF wf1 b1 ones, where f = np_concatenate and x = "Padded ?aug"]
    obtain aug h2 where op2: "np_op2 np_concatenate h1 (beacons_ref obj) ones = Some (aug, h2)"
      and wf2: "wf_heap h2" and k2: "keeps h1 h2"
      and aug: "deref h2 aug = Some (Padded ?aug)" by (auto simp: pad_rows)
    from np_op1_spec [OF wf2 aug, where f = np_matmul_rotations
        and x = "Turned (map (\<lambda>m. map (\<lambda>row. vecmat row m) ?aug) ROTATIONS)"]
    obtain turned h3 where op3: "np_op1 np_matmul_rotations h2 aug = Some (turned, h3)"
      and wf3: "wf_heap h3" and k3: "keeps h2 h3"
      and turned: "deref h3 turned = Some (Turned (map (\<lambda>m. map (\<lambda>row. vecmat row m) ?aug) ROTATIONS))"
      by auto
    let ?r = "view_of turned Unpad"
    let ?obj' = "obj\<lparr>orientations_cache := Some ?r\<rparr>"
    let ?h' = "h3\<lparr>objects := (objects h3)(x \<mapsto> ?obj')\<rparr>"
    from None obj op1 op2 op3 have call: "orientations_obj h x = Some (?r, ?h')"
      by (simp add: orientations_obj_def Let_def)
    have k: "keeps h h3" using k1 k2 k3 keeps_trans by blast
    have "select Unpad (Turned (map (\<lambda>m. map (\<lambda>row. vecmat row m) ?aug) ROTATIONS))
          = Some (Blocks (orientations (beacons s)))"
      by (simp only: select.simps unpad_turned)
    then have r3: "deref h3 ?r = Some (Blocks (orientations (beacons s)))"
      by (simp add: deref_view_of turned)
    from keeps_object [OF wf k obj] obtain obj3 where obj3: "objects h3 x = Some obj3"
      "beacons_ref obj3 = beacons_ref obj" "position_ref obj3 = position_ref obj" .
    have "cache_ok h3 obj" using wf k ok by (rule cache_ok_keeps)
    then have ok': "cache_ok h3 ?obj'"
      using keeps_deref_Some [OF wf k b] r3
      by (auto simp: cache_ok_def split: option.splits)
    have "wf_heap ?h'" "keeps h3 ?h'"
      using set_cache_spec [OF wf3 obj3(1) _ _ ok', of ?h'] obj3 by simp_all
    moreover have "deref ?h' ?r = Some (Blocks (orientations (beacons s)))"
      using r3 by (simp add: deref_objects_update)
    ultimately show thesis using k call that keeps_trans by blast
  qed
qed

subsection \<open>A new scanner\<close>

lemma new_scanner_spec:
  assumes wf: "wf_heap h" and b: "deref h b = Some (Rows bs)" and p: "deref h p = Some (Vec q)"
    and new: "new_scanner h b p = (x, h')"
  shows "wf_heap h'" "keeps h h'" "x = limit h"
    "objects h' x = Some \<lparr>beacons_ref = b, position_ref = p,
                          distances_cache = None, orientations_cache = None\<rparr>"
    "load h' x = Some \<lparr>beacons = bs, position = q\<rparr>"
proof -
  let ?obj = "\<lparr>beacons_ref = b, position_ref = p,
               distances_cache = None, orientations_cache = None\<rparr>"
  from new have x: "x = limit h"
    and h': "h' = h\<lparr>objects := (objects h)(limit h \<mapsto> ?obj), limit := Suc (limit h)\<rparr>"
    by (auto simp: new_scanner_def)
  have d: "deref h' r = deref h r" for r by (simp add: h' deref_def)
  have c: "cache_ok h' o' = cache_ok h o'" for o' by (simp only: cache_ok_def d)
  have none: "objects h (limit h) = None" using wf by (auto simp: wf_heap_def)
  show "x = limit h" by (rule x)
  show "objects h' x = Some ?obj" by (simp add: x h')
  show "load h' x = Some \<lparr>beacons = bs, position = q\<rparr>"
    using b p by (simp add: load_def x h' d [unfolded h'])
  show "keeps h h'" by (simp add: h' keeps_def option.rel_refl)
  have "cache_ok h' o' \<and> (\<exists>p. deref h' (position_ref o') = Some (Vec p))"
    if "objects h' y = Some o'" for y o'
  proof (cases "y = limit h")
    case True
    with that have "o' = ?obj" by (simp add: h')
    with b p show ?thesis by (intro conjI exI [of _ q]) (simp_all add: c d cache_ok_def)
  next
    case False
    with that have "objects h y = Some o'" by (simp add: h')
    with wf show ?thesis by (auto simp: wf_heap_def c d)
  qed
  moreover have "\<forall>a. arrays h' a \<noteq> None \<longrightarrow> a < limit h'"
    using wf by (auto simp: h' wf_heap_def less_Suc_eq)
  moreover have "\<forall>y. objects h' y \<noteq> None \<longrightarrow> y < limit h'"
    using wf by (auto simp: h' wf_heap_def less_Suc_eq)
  ultimately show "wf_heap h'" unfolding wf_heap_def by blast
qed

subsection \<open>The sparse matrices\<close>

lemma lil_rows:
  "n = length cs \<Longrightarrow> n \<le> N \<Longrightarrow>
   foldl (\<lambda>t (i, j). t[i := (t ! i)[j := True]]) (replicate N base) (zip [0..<n] cs)
   = map (\<lambda>c. base[c := True]) cs @ replicate (N - n) base"
proof (induction cs arbitrary: n rule: rev_induct)
  case Nil
  then show ?case by simp
next
  case (snoc c cs)
  let ?m = "length cs"
  from snoc.prems have n: "n = Suc ?m" and m: "?m < N" by simp_all
  have z: "zip [0..<n] (cs @ [c]) = zip [0..<?m] cs @ [(?m, c)]" by (simp add: n)
  have ih: "foldl (\<lambda>t (i, j). t[i := (t ! i)[j := True]]) (replicate N base) (zip [0..<?m] cs)
            = map (\<lambda>c. base[c := True]) cs @ replicate (N - ?m) base"
    using m by (intro snoc.IH) simp_all
  have r: "replicate (N - ?m) base = base # replicate (N - n) base"
    using m by (simp add: n Suc_diff_Suc flip: replicate_Suc)
  show ?case
    by (simp add: z ih r nth_append list_update_append)
qed

lemma onehot_meet:
  "list_ex (\<lambda>(x, y). x \<and> y)
     (zip ((replicate nv False)[c := True]) ((replicate nv False)[c' := True]))
   = (c = c' \<and> c < nv)"
proof -
  have nth: "(replicate nv False)[k := True] ! i = (i = k)" if "i < nv" for i k
    using that by (cases "i = k") simp_all
  have "list_ex (\<lambda>(x, y). x \<and> y)
          (zip ((replicate nv False)[c := True]) ((replicate nv False)[c' := True]))
        = (\<exists>i < nv. (replicate nv False)[c := True] ! i \<and> (replicate nv False)[c' := True] ! i)"
    by (auto simp: list_ex_iff set_zip)
  also have "\<dots> = (\<exists>i < nv. i = c \<and> i = c')" using nth by auto
  finally show ?thesis by auto
qed

lemma sparse_matches_onehot:
  assumes "\<forall>b \<in> set bs. b < nv"
  shows "np_sparse_matches (Sparse (map (\<lambda>c. (replicate nv False)[c := True]) bs))
           (Sparse (map (\<lambda>c. (replicate nv False)[c := True]) rs))
         = Some (Index (matches bs rs))"
proof -
  have "length (filter (\<lambda>b. list_ex (\<lambda>(x, y). x \<and> y) (zip b ((replicate nv False)[r := True])))
                 (map (\<lambda>c. (replicate nv False)[c := True]) bs))
        = length (filter (\<lambda>b. b = r) bs)" for r
  proof -
    have "filter ((\<lambda>b. list_ex (\<lambda>(x, y). x \<and> y) (zip b ((replicate nv False)[r := True])))
                  \<circ> (\<lambda>c. (replicate nv False)[c := True])) bs
          = filter (\<lambda>b. b = r) bs"
      using assms by (intro filter_cong refl) (auto simp: onehot_meet)
    then show ?thesis by (simp add: filter_map)
  qed
  then show ?thesis by (simp add: matches_def comp_def)
qed

lemma np_unique_snd_length: "length (snd (np_unique rows)) = length rows"
  by (simp add: np_unique_def Let_def)

lemma np_unique_snd_less:
  "k \<in> set (snd (np_unique rows)) \<Longrightarrow> k < length (fst (np_unique rows))"
proof -
  assume "k \<in> set (snd (np_unique rows))"
  then obtain x where x: "x \<in> set rows" "k = index_of (sort (remdups rows)) x"
    by (auto simp: np_unique_def Let_def)
  have "index_of (sort (remdups rows)) x < length (sort (remdups rows))"
    using x(1) by (intro index_of_less) simp
  with x(2) show ?thesis by (simp add: np_unique_def Let_def)
qed

lemma np_unique_obj_spec:
  assumes wf: "wf_heap h" and a: "deref h a = Some (Rows st)"
  shows "\<exists>vals ix h'. np_unique_obj h a = Some (vals, ix, h') \<and> wf_heap h' \<and> keeps h h'
           \<and> deref h' vals = Some (Rows (fst (np_unique st)))
           \<and> deref h' ix = Some (Index (snd (np_unique st)))"
proof -
  from np_op1_spec [OF wf a, where f = np_unique_values and x = "Rows (fst (np_unique st))"]
  obtain vals h1 where op1: "np_op1 np_unique_values h a = Some (vals, h1)"
    and wf1: "wf_heap h1" and k1: "keeps h h1"
    and vals: "deref h1 vals = Some (Rows (fst (np_unique st)))" by auto
  have a1: "deref h1 a = Some (Rows st)" using wf k1 a by (rule keeps_deref_Some)
  from np_op1_spec [OF wf1 a1, where f = np_unique_inverse and x = "Index (snd (np_unique st))"]
  obtain ix h2 where op2: "np_op1 np_unique_inverse h1 a = Some (ix, h2)"
    and wf2: "wf_heap h2" and k2: "keeps h1 h2"
    and ix: "deref h2 ix = Some (Index (snd (np_unique st)))" by auto
  have "np_unique_obj h a = Some (vals, ix, h2)" by (simp add: np_unique_obj_def op1 op2)
  moreover have "keeps h h2" using k1 k2 by (rule keeps_trans)
  moreover have "deref h2 vals = Some (Rows (fst (np_unique st)))"
    using wf1 k2 vals by (rule keeps_deref_Some)
  ultimately show ?thesis using wf2 ix by blast
qed

subsection \<open>One round of the loop\<close>

lemma select_column:
  "i < length sb \<Longrightarrow>
   select (Column i) (Blocks (orientations sb)) = Some (Rows (map (\<lambda>b. b ! i) (orientations sb)))"
  by (simp add: list_all_iff orientations_rows)

lemma try_anchor_obj_spec:
  assumes wf: "wf_heap h" and s: "load h self = Some s" and t: "load h other = Some t"
    and ref: "deref h reference = Some (Vec R)"
  shows "\<exists>res h'. try_anchor_obj h self other reference (length (beacons t)) (length (beacons s)) i
                     = Some (res, h')
           \<and> wf_heap h' \<and> keeps h h'
           \<and> answers h h' res (try_anchor (beacons s) (beacons t) R i)"
proof -
  let ?sb = "beacons s" and ?ob = "beacons t"
  let ?nsb = "length ?sb" and ?nob = "length ?ob"
  let ?st = "stacked ?sb ?ob R i"
  let ?uniq = "fst (np_unique ?st)" and ?inv = "snd (np_unique ?st)"
  let ?nv = "length ?uniq"
  let ?cs = "counts ?sb ?ob R i"
  from orientations_obj_spec [OF wf s] obtain oriented h1 where
    c1: "orientations_obj h self = Some (oriented, h1)" and wf1: "wf_heap h1" and k1: "keeps h h1"
    and or1: "deref h1 oriented = Some (Blocks (orientations ?sb))" by blast
  show ?thesis
  proof (cases "?nsb \<le> i")
    case True
    then have "try_anchor_obj h self other reference ?nob ?nsb i = Some (Inl IndexError, h1)"
      by (simp add: try_anchor_obj_def c1)
    moreover from True have "try_anchor ?sb ?ob R i = Inl IndexError"
      by (simp add: try_anchor_def Let_def)
    then have "answers h h1 (Inl IndexError) (try_anchor ?sb ?ob R i)"
      by (simp add: answers_def)
    ultimately show ?thesis using wf1 k1 by blast
  next
    case False
    then have i: "i < ?nsb" by simp
    then have ne: "?sb \<noteq> []" by auto
    have ref1: "deref h1 reference = Some (Vec R)" using wf k1 ref by (rule keeps_deref_Some)
    have col1: "deref h1 (view_of oriented (Column i))
                = Some (Rows (map (\<lambda>b. b ! i) (orientations ?sb)))"
      using i by (simp add: deref_view_of or1 select_column del: select.simps)
    from np_op2_spec [OF wf1 ref1 col1, where f = np_subtract
        and x = "Rows (offsets ?sb R i)"]
    obtain offs h2 where
      c2: "np_op2 np_subtract h1 reference (view_of oriented (Column i)) = Some (offs, h2)"
      and wf2: "wf_heap h2" and k2: "keeps h1 h2"
      and offs2: "deref h2 offs = Some (Rows (offsets ?sb R i))"
      by (auto simp: offsets_def comp_def)
    have or2: "deref h2 oriented = Some (Blocks (orientations ?sb))"
      using wf1 k2 or1 by (rule keeps_deref_Some)
    from np_op2_spec [OF wf2 or2 offs2, where f = np_add
        and x = "Blocks (repositioned ?sb R i)"]
    obtain rep h3 where
      c3: "np_op2 np_add h2 oriented offs = Some (rep, h3)"
      and wf3: "wf_heap h3" and k3: "keeps h2 h3"
      and rep3: "deref h3 rep = Some (Blocks (repositioned ?sb R i))"
      and rep_new: "buffer rep = limit h2"
      by (auto simp: repositioned_def offsets_def)
    have k03: "keeps h h3" using k1 k2 k3 keeps_trans by blast
    have o3: "load h3 other = Some t" using wf k03 t by (rule keeps_load)
    from load_obj [OF wf3 o3] obtain other_obj where
      oo: "objects h3 other = Some other_obj"
      and ob3: "deref h3 (beacons_ref other_obj) = Some (Rows ?ob)" by blast
    from np_op2_spec [OF wf3 ob3 rep3, where f = np_vstack and x = "Rows ?st"]
    obtain stack h4 where
      c4: "np_op2 np_vstack h3 (beacons_ref other_obj) rep = Some (stack, h4)"
      and wf4: "wf_heap h4" and k4: "keeps h3 h4"
      and st4: "deref h4 stack = Some (Rows ?st)"
      by (auto simp: stacked_def)
    from np_unique_obj_spec [OF wf4 st4]
    obtain vals ix h5 where
      c5: "np_unique_obj h4 stack = Some (vals, ix, h5)"
      and wf5: "wf_heap h5" and k5: "keeps h4 h5"
      and vals5: "deref h5 vals = Some (Rows ?uniq)"
      and ix5: "deref h5 ix = Some (Index ?inv)" by blast
    have k05: "keeps h h5" using k03 k4 k5 keeps_trans by blast
    have rd_vals: "read_rows h5 vals = Some ?uniq" by (simp add: read_rows_def vals5)
    have rd_ix: "read_index h5 ix = Some ?inv" by (simp add: read_index_def ix5)
    note head = c1 c2 c3 oo c4 c5 rd_vals
    show ?thesis
    proof (cases "int ?nv > int (?nsb * NOR) + int ?nob - 12")
      case True
      with i have "try_anchor_obj h self other reference ?nob ?nsb i = Some (Inr None, h5)"
        by (simp add: try_anchor_obj_def head)
      moreover from True i have "try_anchor ?sb ?ob R i = Inr None"
        by (simp add: try_anchor_def Let_def)
      then have "answers h h5 (Inr None) (try_anchor ?sb ?ob R i)"
        by (simp add: answers_def)
      ultimately show ?thesis using wf5 k05 by blast
    next
      case uniq_ok: False
      have len_st: "length ?st = ?nob + ?nsb * NOR"
      proof -
        have "length (concat (repositioned ?sb R i)) = length (repositioned ?sb R i) * ?nsb"
          by (intro length_concat_uniform) (simp add: repositioned_rows)
        then show ?thesis by (simp add: stacked_def length_repositioned NOR_24)
      qed
      have len_b: "length (take ?nob ?inv) = ?nob"
        by (simp add: np_unique_snd_length len_st)
      have len_r: "length (drop ?nob ?inv) = ?nsb * NOR"
        by (simp add: np_unique_snd_length len_st)
      have less: "\<forall>b \<in> set (take ?nob ?inv). b < ?nv"
        by (auto dest!: in_set_takeD np_unique_snd_less)
      obtain obv h6 where
        c6: "np_new h5 (Sparse (replicate ?nob (replicate ?nv False))) = (obv, h6)"
        by (cases "np_new h5 (Sparse (replicate ?nob (replicate ?nv False)))")
      from lil_assign_spec [OF wf5 c6, of "zip [0..<?nob] (take ?nob ?inv)"]
      obtain h7 where
        c7: "lil_assign h6 obv (zip [0..<?nob] (take ?nob ?inv)) = Some h7"
        and wf7: "wf_heap h7" and k7: "keeps h5 h7"
        and obv7: "deref h7 obv
                   = Some (Sparse (map (\<lambda>c. (replicate ?nv False)[c := True]) (take ?nob ?inv)))"
        using lil_rows [of ?nob "take ?nob ?inv" ?nob "replicate ?nv False"] len_b
        by auto
      obtain rv h8 where
        c8: "np_new h7 (Sparse (replicate (?nsb * NOR) (replicate ?nv False))) = (rv, h8)"
        by (cases "np_new h7 (Sparse (replicate (?nsb * NOR) (replicate ?nv False)))")
      from lil_assign_spec [OF wf7 c8, of "zip [0..<?nsb * NOR] (drop ?nob ?inv)"]
      obtain h9 where
        c9: "lil_assign h8 rv (zip [0..<?nsb * NOR] (drop ?nob ?inv)) = Some h9"
        and wf9: "wf_heap h9" and k9: "keeps h7 h9"
        and rv9: "deref h9 rv
                  = Some (Sparse (map (\<lambda>c. (replicate ?nv False)[c := True]) (drop ?nob ?inv)))"
        using lil_rows [of "?nsb * NOR" "drop ?nob ?inv" "?nsb * NOR" "replicate ?nv False"] len_r
        by auto
      have obv9: "deref h9 obv
                  = Some (Sparse (map (\<lambda>c. (replicate ?nv False)[c := True]) (take ?nob ?inv)))"
        using wf7 k9 obv7 by (rule keeps_deref_Some)
      from np_op2_spec [OF wf9 obv9 rv9, where f = np_sparse_matches
          and x = "Index (matches (take ?nob ?inv) (drop ?nob ?inv))"]
      obtain ms h10 where
        c10: "np_op2 np_sparse_matches h9 obv rv = Some (ms, h10)"
        and wf10: "wf_heap h10" and k10: "keeps h9 h10"
        and ms10: "deref h10 ms = Some (Index (matches (take ?nob ?inv) (drop ?nob ?inv)))"
        using sparse_matches_onehot [OF less] by auto
      from np_op1_spec [OF wf10 ms10, where f = "np_reshape_sum ?nsb" and x = "Index ?cs"]
      obtain cnt h11 where
        c11: "np_op1 (np_reshape_sum ?nsb) h10 ms = Some (cnt, h11)"
        and wf11: "wf_heap h11" and k11: "keeps h10 h11"
        and cnt11: "deref h11 cnt = Some (Index ?cs)"
        by (auto simp: counts_def Let_def)
      have rd_cnt: "read_index h11 cnt = Some ?cs" by (simp add: read_index_def cnt11)
      have k511: "keeps h5 h11" using k7 k9 k10 k11 keeps_trans by blast
      have k011: "keeps h h11" using k05 k511 by (rule keeps_trans)
      note body = head rd_ix c6 c7 c8 c9 c10 c11 rd_cnt
      show ?thesis
      proof (cases "list_ex (\<lambda>c. c \<ge> MIN_BEACONS_IN_COMMON) ?cs")
        case False
        with i uniq_ok have "try_anchor_obj h self other reference ?nob ?nsb i = Some (Inr None, h11)"
          by (simp add: try_anchor_obj_def body)
        moreover from False i uniq_ok have "try_anchor ?sb ?ob R i = Inr None"
          by (simp add: try_anchor_def Let_def)
        then have "answers h h11 (Inr None) (try_anchor ?sb ?ob R i)"
          by (simp add: answers_def)
        ultimately show ?thesis using wf11 k011 by blast
      next
        case True
        let ?k = "argmax ?cs"
        let ?v = "\<lparr>beacons = repositioned ?sb R i ! ?k,
                   position = vsub R (orientations ?sb ! ?k ! i)\<rparr>"
        have len_cs: "length ?cs = 24" using ne by (rule length_counts)
        then have "?cs \<noteq> []" by auto
        then have "?k < length ?cs" by (rule argmax_less)
        then have kk: "?k < 24" by (simp only: len_cs)
        have k311: "keeps h3 h11" using k4 k5 k511 keeps_trans by blast
        have k111: "keeps h1 h11" using k2 k3 k311 keeps_trans by blast
        have rep11: "deref h11 rep = Some (Blocks (repositioned ?sb R i))"
          using wf3 k311 rep3 by (rule keeps_deref_Some)
        have or11: "deref h11 oriented = Some (Blocks (orientations ?sb))"
          using wf1 k111 or1 by (rule keeps_deref_Some)
        have ref11: "deref h11 reference = Some (Vec R)"
          using wf k011 ref by (rule keeps_deref_Some)
        have nb11: "deref h11 (view_of rep (Item ?k)) = Some (Rows (repositioned ?sb R i ! ?k))"
          using kk by (simp add: deref_view_of rep11 length_repositioned)
        have len_k: "length (orientations ?sb ! ?k) = ?nsb"
          using kk by (intro orientations_rows) (simp add: length_orientations)
        have at11: "deref h11 (view_of (view_of oriented (Item ?k)) (Item i))
                    = Some (Vec (orientations ?sb ! ?k ! i))"
          using kk i by (simp add: deref_view_of or11 length_orientations len_k)
        from np_op2_spec [OF wf11 ref11 at11, where f = np_subtract
            and x = "Vec (vsub R (orientations ?sb ! ?k ! i))"]
        obtain new_pos h12 where
          c12: "np_op2 np_subtract h11 reference (view_of (view_of oriented (Item ?k)) (Item i))
                = Some (new_pos, h12)"
          and wf12: "wf_heap h12" and k12: "keeps h11 h12"
          and np12: "deref h12 new_pos = Some (Vec (vsub R (orientations ?sb ! ?k ! i)))"
          and np_new: "buffer new_pos = limit h11"
          by auto
        have nb12: "deref h12 (view_of rep (Item ?k)) = Some (Rows (repositioned ?sb R i ! ?k))"
          using wf11 k12 nb11 by (rule keeps_deref_Some)
        obtain placed h13 where
          c13: "new_scanner h12 (view_of rep (Item ?k)) new_pos = (placed, h13)"
          by (cases "new_scanner h12 (view_of rep (Item ?k)) new_pos")
        note new = new_scanner_spec [OF wf12 nb12 np12 c13]
        have k013: "keeps h h13" using k011 k12 new(2) keeps_trans by blast
        from True i uniq_ok
        have call: "try_anchor_obj h self other reference ?nob ?nsb i = Some (Inr (Some placed), h13)"
          by (simp add: try_anchor_obj_def body c12 c13)
        from True i uniq_ok have pure: "try_anchor ?sb ?ob R i = Inr (Some ?v)"
          by (simp add: try_anchor_def Let_def)
        have "limit h \<le> limit h2" using k1 k2 keeps_limit le_trans by blast
        moreover have "limit h \<le> limit h11" using k011 by (rule keeps_limit)
        moreover have "limit h \<le> limit h12" using k011 k12 keeps_limit le_trans by blast
        ultimately have "answers h h13 (Inr (Some placed)) (try_anchor ?sb ?ob R i)"
          using new(3,4,5) rep_new np_new
          by (simp add: answers_def pure buffer_view_of)
        with call new(1) k013 show ?thesis by blast
      qed
    qed
  qed
qed

subsection \<open>The loop and the call\<close>

lemma answers_mono:
  "limit h0 \<le> limit h \<Longrightarrow> answers h h' res pure \<Longrightarrow> answers h0 h' res pure"
proof (cases pure)
  case (Inl e)
  assume "answers h h' res pure"
  with Inl show ?thesis by (simp add: answers_def)
next
  case (Inr r)
  assume le: "limit h0 \<le> limit h" and a: "answers h h' res pure"
  show ?thesis
  proof (cases r)
    case None
    with a Inr show ?thesis by (simp add: answers_def)
  next
    case (Some v)
    with a Inr obtain x obj where "res = Inr (Some x)" "limit h \<le> x" "load h' x = Some v"
      "objects h' x = Some obj" "limit h \<le> buffer (beacons_ref obj)"
      "limit h \<le> buffer (position_ref obj)"
      by (auto simp: answers_def split: sum.splits option.splits)
    with le Inr Some show ?thesis by (simp add: answers_def)
  qed
qed

lemma anchors_loop_obj_spec:
  assumes "wf_heap h" "load h self = Some s" "load h other = Some t"
    "deref h reference = Some (Vec R)"
  shows "\<exists>res h'. anchors_loop_obj h self other reference (length (beacons t)) (length (beacons s)) anchors
                     = Some (res, h')
           \<and> wf_heap h' \<and> keeps h h'
           \<and> answers h h' res (anchors_loop (beacons s) (beacons t) R anchors)"
  using assms
proof (induction anchors arbitrary: h)
  case Nil
  then show ?case using keeps_refl by (auto simp: answers_def)
next
  case (Cons i rest)
  from try_anchor_obj_spec [OF Cons.prems, of i] obtain res1 h1 where
    c: "try_anchor_obj h self other reference (length (beacons t)) (length (beacons s)) i
        = Some (res1, h1)"
    and wf1: "wf_heap h1" and k1: "keeps h h1"
    and a1: "answers h h1 res1 (try_anchor (beacons s) (beacons t) R i)" by blast
  show ?case
  proof (cases "try_anchor (beacons s) (beacons t) R i")
    case (Inl e)
    with a1 have "res1 = Inl e" by (simp add: answers_def)
    with c have "anchors_loop_obj h self other reference (length (beacons t)) (length (beacons s))
                   (i # rest) = Some (res1, h1)" by simp
    moreover from a1 Inl have "answers h h1 res1 (anchors_loop (beacons s) (beacons t) R (i # rest))"
      by simp
    ultimately show ?thesis using wf1 k1 by blast
  next
    case (Inr r)
    show ?thesis
    proof (cases r)
      case (Some v)
      with a1 Inr obtain x where "res1 = Inr (Some x)"
        by (auto simp: answers_def split: sum.splits option.splits)
      with c have "anchors_loop_obj h self other reference (length (beacons t)) (length (beacons s))
                     (i # rest) = Some (res1, h1)" by simp
      moreover from a1 Inr Some
      have "answers h h1 res1 (anchors_loop (beacons s) (beacons t) R (i # rest))" by simp
      ultimately show ?thesis using wf1 k1 by blast
    next
      case None
      with a1 Inr have "res1 = Inr None" by (simp add: answers_def)
      with c have step: "anchors_loop_obj h self other reference (length (beacons t))
                           (length (beacons s)) (i # rest)
          = anchors_loop_obj h1 self other reference (length (beacons t)) (length (beacons s)) rest"
        by simp
      have "load h1 self = Some s" "load h1 other = Some t" "deref h1 reference = Some (Vec R)"
        using Cons.prems k1 keeps_load keeps_deref_Some by blast+
      from Cons.IH [OF wf1 this] obtain res h' where
        r: "anchors_loop_obj h1 self other reference (length (beacons t)) (length (beacons s)) rest
            = Some (res, h')"
        and wf': "wf_heap h'" and k': "keeps h1 h'"
        and a': "answers h1 h' res (anchors_loop (beacons s) (beacons t) R rest)" by blast
      from a' have "answers h h' res (anchors_loop (beacons s) (beacons t) R rest)"
        using keeps_limit [OF k1] by (rule answers_mono [rotated])
      with Inr None have "answers h h' res (anchors_loop (beacons s) (beacons t) R (i # rest))"
        by simp
      moreover have "keeps h h'" using k1 k' by (rule keeps_trans)
      ultimately show ?thesis using step r wf' by auto
    qed
  qed
qed

lemma scanner_and_obj_spec:
  assumes wf: "wf_heap h" and s: "load h self = Some s" and t: "load h other = Some t"
  shows "\<exists>res h'. scanner_and_obj key_iter idx_iter h self other = Some (res, h')
           \<and> wf_heap h' \<and> keeps h h'
           \<and> answers h h' res (scanner_and key_iter idx_iter s t)"
proof -
  let ?sd = "distances (beacons s)" and ?od = "distances (beacons t)"
  let ?shared = "shared_keys ?sd ?od"
  from distances_obj_spec [OF wf s] obtain h1 where
    c1: "distances_obj h self = Some (?sd, h1)" and wf1: "wf_heap h1" and k1: "keeps h h1" by blast
  have t1: "load h1 other = Some t" using wf k1 t by (rule keeps_load)
  from distances_obj_spec [OF wf1 t1] obtain h2 where
    c2: "distances_obj h1 other = Some (?od, h2)" and wf2: "wf_heap h2" and k2: "keeps h1 h2" by blast
  have k02: "keeps h h2" using k1 k2 by (rule keeps_trans)
  have s2: "load h2 self = Some s" using wf k02 s by (rule keeps_load)
  have t2: "load h2 other = Some t" using wf k02 t by (rule keeps_load)
  from load_obj [OF wf2 s2] obtain self_obj where
    so: "objects h2 self = Some self_obj"
    and sb: "deref h2 (beacons_ref self_obj) = Some (Rows (beacons s))" by blast
  from load_obj [OF wf2 t2] obtain other_obj where
    oo: "objects h2 other = Some other_obj"
    and ob: "deref h2 (beacons_ref other_obj) = Some (Rows (beacons t))" by blast
  note head = c1 c2 so oo read_rows_def sb ob Let_def
  have stop: ?thesis
    if call: "scanner_and_obj key_iter idx_iter h self other = Some (res, h2)"
      and pure: "answers h h2 res (scanner_and key_iter idx_iter s t)" for res
    using that wf2 k02 by blast
  show ?thesis
  proof (cases "common_distances ?sd ?shared < MIN_COMMON_DISTANCES")
    case True
    then have "scanner_and_obj key_iter idx_iter h self other = Some (Inr None, h2)"
      by (simp add: scanner_and_obj_def head)
    moreover from True have "scanner_and key_iter idx_iter s t = Inr None"
      by (simp add: scanner_and_def Let_def)
    then have "answers h h2 (Inr None) (scanner_and key_iter idx_iter s t)"
      by (simp add: answers_def)
    ultimately show ?thesis by (rule stop)
  next
    case pass: False
    show ?thesis
    proof (cases "next_iter (key_iter ?shared)")
      case (Inl e)
      with pass have "scanner_and_obj key_iter idx_iter h self other = Some (Inl e, h2)"
        by (simp add: scanner_and_obj_def head)
      moreover from pass Inl have "scanner_and key_iter idx_iter s t = Inl e"
        by (simp add: scanner_and_def Let_def pick_reference_def)
      then have "answers h h2 (Inl e) (scanner_and key_iter idx_iter s t)"
        by (simp add: answers_def)
      ultimately show ?thesis by (rule stop)
    next
      case distance: (Inr distance)
      show ?thesis
      proof (cases "getitem ?od distance")
        case (Inl e)
        with pass distance have "scanner_and_obj key_iter idx_iter h self other = Some (Inl e, h2)"
          by (simp add: scanner_and_obj_def head)
        moreover from pass distance Inl have "scanner_and key_iter idx_iter s t = Inl e"
          by (simp add: scanner_and_def Let_def pick_reference_def)
        then have "answers h h2 (Inl e) (scanner_and key_iter idx_iter s t)"
          by (simp add: answers_def)
        ultimately show ?thesis by (rule stop)
      next
        case other_pairs: (Inr other_pairs)
        show ?thesis
        proof (cases "next_iter (idx_iter other_pairs)")
          case (Inl e)
          with pass distance other_pairs
          have "scanner_and_obj key_iter idx_iter h self other = Some (Inl e, h2)"
            by (simp add: scanner_and_obj_def head)
          moreover from pass distance other_pairs Inl
          have "scanner_and key_iter idx_iter s t = Inl e"
            by (simp add: scanner_and_def Let_def pick_reference_def)
          then have "answers h h2 (Inl e) (scanner_and key_iter idx_iter s t)"
            by (simp add: answers_def)
          ultimately show ?thesis by (rule stop)
        next
          case k: (Inr k)
          show ?thesis
          proof (cases "length (beacons t) \<le> k")
            case True
            with pass distance other_pairs k
            have "scanner_and_obj key_iter idx_iter h self other = Some (Inl IndexError, h2)"
              by (simp add: scanner_and_obj_def head)
            moreover from pass distance other_pairs k True
            have "scanner_and key_iter idx_iter s t = Inl IndexError"
              by (simp add: scanner_and_def Let_def pick_reference_def)
            then have "answers h h2 (Inl IndexError) (scanner_and key_iter idx_iter s t)"
              by (simp add: answers_def)
            ultimately show ?thesis by (rule stop)
          next
            case inside: False
            show ?thesis
            proof (cases "getitem ?sd distance")
              case (Inl e)
              with pass distance other_pairs k inside
              have "scanner_and_obj key_iter idx_iter h self other = Some (Inl e, h2)"
                by (simp add: scanner_and_obj_def head)
              moreover from pass distance other_pairs k inside Inl
              have "scanner_and key_iter idx_iter s t = Inl e"
                by (simp add: scanner_and_def Let_def pick_reference_def)
              then have "answers h h2 (Inl e) (scanner_and key_iter idx_iter s t)"
                by (simp add: answers_def)
              ultimately show ?thesis by (rule stop)
            next
              case own_pairs: (Inr own_pairs)
              let ?reference = "view_of (beacons_ref other_obj) (Item k)"
              have ref: "deref h2 ?reference = Some (Vec (beacons t ! k))"
                using inside by (simp add: deref_view_of ob)
              from anchors_loop_obj_spec [OF wf2 s2 t2 ref, of "idx_iter own_pairs"]
              obtain res h' where
                loop: "anchors_loop_obj h2 self other ?reference (length (beacons t))
                         (length (beacons s)) (idx_iter own_pairs) = Some (res, h')"
                and wf': "wf_heap h'" and k': "keeps h2 h'"
                and a': "answers h2 h' res
                           (anchors_loop (beacons s) (beacons t) (beacons t ! k) (idx_iter own_pairs))"
                by blast
              from pass distance other_pairs k inside own_pairs loop
              have "scanner_and_obj key_iter idx_iter h self other = Some (res, h')"
                by (simp add: scanner_and_obj_def head)
              moreover from pass distance other_pairs k inside own_pairs
              have "scanner_and key_iter idx_iter s t
                    = anchors_loop (beacons s) (beacons t) (beacons t ! k) (idx_iter own_pairs)"
                by (simp add: scanner_and_def Let_def pick_reference_def)
              with a' have "answers h h' res (scanner_and key_iter idx_iter s t)"
                using keeps_limit [OF k02] answers_mono by simp
              moreover have "keeps h h'" using k02 k' by (rule keeps_trans)
              ultimately show ?thesis using wf' by blast
            qed
          qed
        qed
      qed
    qed
  qed
qed

text \<open>
  C9. Take a store in which the addresses in use lie below the limit, every object is
  a scanner and the caches hold what the properties compute, and two objects of it,
  \<open>self\<close> and \<open>other\<close>. The call \<open>self & other\<close> returns. Every buffer that was in use
  has the contents it had: the assignments of the method go to the two sparse matrices
  it has made itself. Every object that was there holds the same two array objects, so
  every scanner of the store, \<open>self\<close> and \<open>other\<close> among them, has the points and the
  position it had; what the call adds to \<open>self\<close> and \<open>other\<close> are the cached
  properties. The result is the result of the matcher on the two scanners: the same
  error, \<open>None\<close>, or a scanner. The scanner is an object that was not there before,
  different from \<open>self\<close> and from \<open>other\<close>; its points are a view of the new array
  \<open>repositioned\<close> and its position is a new array, both in buffers that were not in
  use before the call, and they hold the points and the position the matcher computes.
  The store the call leaves is again such a store, so all of this holds of the next call.
\<close>

theorem matcher_mutates_nothing:
  assumes wf: "wf_heap h" and self: "load h self = Some s" and other: "load h other = Some t"
  shows "\<exists>res h'. scanner_and_obj key_iter idx_iter h self other = Some (res, h')
           \<and> wf_heap h'
           \<and> (\<forall>a. arrays h a \<noteq> None \<longrightarrow> arrays h' a = arrays h a)
           \<and> (\<forall>x obj. objects h x = Some obj \<longrightarrow>
                 (\<exists>obj'. objects h' x = Some obj' \<and> beacons_ref obj' = beacons_ref obj
                         \<and> position_ref obj' = position_ref obj))
           \<and> (\<forall>x c. load h x = Some c \<longrightarrow> load h' x = Some c)
           \<and> load h' self = Some s \<and> load h' other = Some t
           \<and> (case scanner_and key_iter idx_iter s t of
                 Inl e \<Rightarrow> res = Inl e
               | Inr None \<Rightarrow> res = Inr None
               | Inr (Some v) \<Rightarrow>
                   (\<exists>x obj. res = Inr (Some x) \<and> x \<noteq> self \<and> x \<noteq> other
                      \<and> objects h x = None \<and> objects h' x = Some obj
                      \<and> arrays h (buffer (beacons_ref obj)) = None
                      \<and> arrays h (buffer (position_ref obj)) = None
                      \<and> load h' x = Some v))"
proof -
  from scanner_and_obj_spec [OF wf self other, of key_iter idx_iter] obtain res h' where
    call: "scanner_and_obj key_iter idx_iter h self other = Some (res, h')"
    and wf': "wf_heap h'" and k: "keeps h h'"
    and a: "answers h h' res (scanner_and key_iter idx_iter s t)" by blast
  have arrays: "\<forall>a. arrays h a \<noteq> None \<longrightarrow> arrays h' a = arrays h a"
    using wf k by (auto simp: wf_heap_def keeps_def)
  have objs: "\<forall>x obj. objects h x = Some obj \<longrightarrow>
                 (\<exists>obj'. objects h' x = Some obj' \<and> beacons_ref obj' = beacons_ref obj
                         \<and> position_ref obj' = position_ref obj)"
    using keeps_object [OF wf k] by metis
  have loads: "\<forall>x c. load h x = Some c \<longrightarrow> load h' x = Some c"
    using keeps_load [OF wf k] by blast
  have fresh: "arrays h b = None \<and> objects h b = None" if "limit h \<le> b" for b
    using that wf by (fastforce simp: wf_heap_def)
  have below: "self < limit h" "other < limit h"
    using wf self other by (auto simp: wf_heap_def load_def split: Option.bind_splits)
  have result: "case scanner_and key_iter idx_iter s t of
                 Inl e \<Rightarrow> res = Inl e
               | Inr None \<Rightarrow> res = Inr None
               | Inr (Some v) \<Rightarrow>
                   (\<exists>x obj. res = Inr (Some x) \<and> x \<noteq> self \<and> x \<noteq> other
                      \<and> objects h x = None \<and> objects h' x = Some obj
                      \<and> arrays h (buffer (beacons_ref obj)) = None
                      \<and> arrays h (buffer (position_ref obj)) = None
                      \<and> load h' x = Some v)"
  proof (cases "scanner_and key_iter idx_iter s t")
    case (Inl e)
    with a show ?thesis by (simp add: answers_def)
  next
    case (Inr r)
    show ?thesis
    proof (cases r)
      case None
      with a Inr show ?thesis by (simp add: answers_def)
    next
      case (Some v)
      with a Inr obtain x obj where x: "res = Inr (Some x)" "limit h \<le> x" "load h' x = Some v"
        "objects h' x = Some obj" "limit h \<le> buffer (beacons_ref obj)"
        "limit h \<le> buffer (position_ref obj)"
        by (auto simp: answers_def split: sum.splits option.splits)
      with below fresh have "x \<noteq> self" "x \<noteq> other" "objects h x = None"
        "arrays h (buffer (beacons_ref obj)) = None" "arrays h (buffer (position_ref obj)) = None"
        by auto
      with x Inr Some show ?thesis by simp
    qed
  qed
  from call wf' arrays objs loads self other result show ?thesis by blast
qed

theorem matcher_mutates_nothing_witness:
  "wf_heap heap_ab
   \<and> load heap_ab 3 = Some (from_lines cloud_b)
   \<and> load heap_ab 4 = Some (from_lines cloud_a)
   \<and> (\<exists>x h' y h''.
         scanner_and_obj id id heap_ab 3 4 = Some (Inr (Some x), h')
         \<and> arrays h' 0 = Some (Rows cloud_b)
         \<and> arrays h' 1 = Some (Vec (0, 0, 0))
         \<and> arrays h' 2 = Some (Rows cloud_a)
         \<and> load h' 3 = Some (from_lines cloud_b)
         \<and> load h' 4 = Some (from_lines cloud_a)
         \<and> x \<noteq> 3 \<and> x \<noteq> 4
         \<and> load h' x
             = Some \<lparr>beacons = [(8, 0, 1), (9, 0, 0), (5, 0, 2), (9, 6, 3), (2, 0, 6), (0, 5, 5),
                                (5, 2, 4), (8, 9, 1), (0, 8, 8), (3, 0, 8), (3, 8, 1), (9, 8, 0)],
                     position = (20, - 7, 3)\<rparr>
         \<and> scanner_and_obj id id h' 3 4 = Some (Inr (Some y), h'')
         \<and> y \<noteq> x \<and> y \<noteq> 3 \<and> y \<noteq> 4
         \<and> load h'' 3 = Some (from_lines cloud_b)
         \<and> load h'' 4 = Some (from_lines cloud_a)
         \<and> load h'' x = load h' x
         \<and> load h'' y = load h' x)"
proof -
  let ?v = "\<lparr>beacons = [(8, 0, 1), (9, 0, 0), (5, 0, 2), (9, 6, 3), (2, 0, 6), (0, 5, 5),
                        (5, 2, 4), (8, 9, 1), (0, 8, 8), (3, 0, 8), (3, 8, 1), (9, 8, 0)],
             position = (20, - 7, 3)\<rparr>"
  have d0: "deref heap_ab \<lparr>buffer = 0, views = []\<rparr> = Some (Rows cloud_b)"
    and d1: "deref heap_ab \<lparr>buffer = 1, views = []\<rparr> = Some (Vec (0, 0, 0))"
    and d2: "deref heap_ab \<lparr>buffer = 2, views = []\<rparr> = Some (Rows cloud_a)"
    by (simp_all add: deref_def heap_ab_def)
  have wf: "wf_heap heap_ab"
    unfolding wf_heap_def
  proof (intro conjI allI impI)
    fix a assume "arrays heap_ab a \<noteq> None"
    then show "a < limit heap_ab" by (simp add: heap_ab_def split: if_splits)
  next
    fix x assume "objects heap_ab x \<noteq> None"
    then show "x < limit heap_ab" by (simp add: heap_ab_def split: if_splits)
  next
    fix x obj assume "objects heap_ab x = Some obj"
    then have "obj = \<lparr>beacons_ref = \<lparr>buffer = 0, views = []\<rparr>, position_ref = \<lparr>buffer = 1, views = []\<rparr>,
                 distances_cache = None, orientations_cache = None\<rparr>
               \<or> obj = \<lparr>beacons_ref = \<lparr>buffer = 2, views = []\<rparr>, position_ref = \<lparr>buffer = 1, views = []\<rparr>,
                 distances_cache = None, orientations_cache = None\<rparr>"
      by (auto simp: heap_ab_def split: if_splits)
    then show "cache_ok heap_ab obj" "\<exists>p. deref heap_ab (position_ref obj) = Some (Vec p)"
      using d0 d1 d2 by (auto simp: cache_ok_def)
  qed
  have lb: "load heap_ab 3 = Some (from_lines cloud_b)"
    using d0 d1 by (simp add: load_def from_lines_def) (simp add: heap_ab_def)
  have la: "load heap_ab 4 = Some (from_lines cloud_a)"
    using d2 d1 by (simp add: load_def from_lines_def) (simp add: heap_ab_def)
  from matcher_mutates_nothing [OF wf lb la, of id id] obtain res h' where
    call: "scanner_and_obj id id heap_ab 3 4 = Some (res, h')"
    and wf': "wf_heap h'"
    and arrays: "\<forall>a. arrays heap_ab a \<noteq> None \<longrightarrow> arrays h' a = arrays heap_ab a"
    and same: "load h' 3 = Some (from_lines cloud_b)" "load h' 4 = Some (from_lines cloud_a)"
    and result: "case scanner_and id id (from_lines cloud_b) (from_lines cloud_a) of
                 Inl e \<Rightarrow> res = Inl e
               | Inr None \<Rightarrow> res = Inr None
               | Inr (Some v) \<Rightarrow>
                   (\<exists>x obj. res = Inr (Some x) \<and> x \<noteq> 3 \<and> x \<noteq> 4
                      \<and> objects heap_ab x = None \<and> objects h' x = Some obj
                      \<and> arrays heap_ab (buffer (beacons_ref obj)) = None
                      \<and> arrays heap_ab (buffer (position_ref obj)) = None
                      \<and> load h' x = Some v)"
    by blast
  from result obtain x objx where x: "res = Inr (Some x)" "x \<noteq> 3" "x \<noteq> 4" "load h' x = Some ?v"
    and objx: "objects h' x = Some objx"
    by (auto simp: b_a_match)
  have old: "arrays h' 0 = Some (Rows cloud_b)" "arrays h' 1 = Some (Vec (0, 0, 0))"
    "arrays h' 2 = Some (Rows cloud_a)"
    using arrays by (simp_all add: heap_ab_def)
  from matcher_mutates_nothing [OF wf' same, of id id] obtain res' h'' where
    call': "scanner_and_obj id id h' 3 4 = Some (res', h'')"
    and loads': "\<forall>z c. load h' z = Some c \<longrightarrow> load h'' z = Some c"
    and same': "load h'' 3 = Some (from_lines cloud_b)" "load h'' 4 = Some (from_lines cloud_a)"
    and result': "case scanner_and id id (from_lines cloud_b) (from_lines cloud_a) of
                 Inl e \<Rightarrow> res' = Inl e
               | Inr None \<Rightarrow> res' = Inr None
               | Inr (Some v) \<Rightarrow>
                   (\<exists>y obj. res' = Inr (Some y) \<and> y \<noteq> 3 \<and> y \<noteq> 4
                      \<and> objects h' y = None \<and> objects h'' y = Some obj
                      \<and> arrays h' (buffer (beacons_ref obj)) = None
                      \<and> arrays h' (buffer (position_ref obj)) = None
                      \<and> load h'' y = Some v)"
    by blast
  from result' obtain y where y: "res' = Inr (Some y)" "y \<noteq> 3" "y \<noteq> 4" "objects h' y = None"
    "load h'' y = Some ?v"
    by (auto simp: b_a_match)
  from y(4) objx have yx: "y \<noteq> x" by auto
  from loads' x(4) have keep: "load h'' x = load h' x" by simp
  from y(5) x(4) have "load h'' y = load h' x" by simp
  with wf lb la call x old same call' y(1,2,3) yx same' keep show ?thesis by blast
qed

section \<open>The thresholds\<close>

lemma a_f_common:
  "common_distances (distances cloud_a) (shared_keys (distances cloud_a) (distances cloud_f)) = 66"
  by code_simp

lemma a_f_pick:
  "pick_reference id id cloud_f (distances cloud_a) (distances cloud_f)
      (shared_keys (distances cloud_a) (distances cloud_f)) = Inr ((20, 20, 20), [0, 1])"
  by code_simp

lemma a_f_hits_0:
  "list_ex (\<lambda>c. 12 \<le> c) (map (hits cloud_f) (repositioned cloud_a (20, 20, 20) 0)) = False"
  by code_simp

lemma a_f_hits_1:
  "list_ex (\<lambda>c. 12 \<le> c) (map (hits cloud_f) (repositioned cloud_a (20, 20, 20) (Suc 0))) = False"
  by code_simp

lemma a_f_no_match: "scanner_and id id (from_lines cloud_a) (from_lines cloud_f) = Inr None"
proof -
  have ne: "cloud_a \<noteq> []" by (simp add: cloud_a_def)
  have mem: "(20, 20, 20) \<in> set cloud_f" by (simp add: cloud_f_def)
  have rng: "\<forall>i \<in> set [0, 1]. i < length cloud_a" by (simp add: cloud_a_def)
  have "anchors_loop cloud_a cloud_f (20, 20, 20) [0, 1] = Inr None"
    unfolding anchors_loop_accepts(2) [OF mem rng]
    by (simp add: counts_hits [OF ne] a_f_hits_0 a_f_hits_1)
  moreover have "scanner_and id id (from_lines cloud_a) (from_lines cloud_f)
        = anchors_loop cloud_a cloud_f (20, 20, 20) [0, 1]"
    using scanner_and_unfold [of "from_lines cloud_a" "from_lines cloud_f" id id "(20, 20, 20)" "[0, 1]"]
    by (simp add: from_lines_def a_f_common a_f_pick)
  ultimately show ?thesis by simp
qed

lemma a_distinct: "distinct cloud_a \<and> length cloud_a = 12"
  by code_simp

lemma a_pdist_distinct: "distinct (pdist cloud_a) \<and> length (pdist cloud_a) = 66"
  by code_simp

lemma a_f_shared: "distinct cloud_f \<and> card (set cloud_a \<inter> set cloud_f) = 12"
  by code_simp

text \<open>
  The clouds \<open>cloud_a\<close> and \<open>cloud_f\<close> are in one frame and have exactly the twelve
  points of \<open>cloud_a\<close> in common, whose 66 distances are all different and give the sum
  66 in the pre-filter. With the sets iterated in the order of insertion, the distance
  picked is that of the first two points of \<open>cloud_a\<close>, which in \<open>cloud_f\<close> is also
  the distance of the two other points; the reference point is the first of those, no
  orientation reaches 12 for either anchor, and the matcher rejects the pair.
\<close>

theorem twelve_common_rejected_counterexample:
  "iterates (id :: int list \<Rightarrow> int list) \<and> iterates (id :: nat list \<Rightarrow> nat list)
   \<and> distinct cloud_a \<and> distinct cloud_f
   \<and> card (set cloud_a \<inter> set cloud_f) = 12
   \<and> distinct (pdist cloud_a) \<and> length (pdist cloud_a) = 66
   \<and> common_of (from_lines cloud_a) (from_lines cloud_f) = 66
   \<and> scanner_and id id (from_lines cloud_a) (from_lines cloud_f) = Inr None"
  using a_f_no_match a_distinct a_pdist_distinct a_f_shared a_f_common
  by (simp add: iterates_def from_lines_def)

lemma length_pdist_12: "length cs = 12 \<Longrightarrow> length (pdist cs) = 66"
proof -
  assume "length cs = 12"
  moreover have "length (combinations2 12) = 66" by code_simp
  ultimately show ?thesis by (simp add: pdist_def)
qed

lemma counts_nth:
  assumes "i < length sb" "k < 24"
  shows "counts sb ob R i ! k
         = hits ob (moved (ROTATIONS ! k) (vsub R (orient (ROTATIONS ! k) (sb ! i))) sb)"
proof -
  from assms(1) have ne: "sb \<noteq> []" by auto
  show ?thesis
    using assms by (simp add: counts_hits [OF ne] length_repositioned repositioned_moved)
qed

text \<open>Twelve common points with 66 different distances pass the pre-filter.\<close>

lemma twelve_common_pass:
  assumes m: "m \<in> set ROTATIONS"
    and cs: "distinct cs" "length cs = 12" "distinct (pdist cs)"
    and sub: "set cs \<subseteq> set ob" "set cs \<subseteq> set (moved m t sb)"
  shows "66 \<le> common_distances (distances sb) (shared_keys (distances sb) (distances ob))"
proof -
  let ?sh = "shared_keys (distances sb) (distances ob)"
  have "set (pdist cs) \<subseteq> set (pdist ob)" using cs(1) sub(1) by (rule pdist_subset)
  moreover have "set (pdist cs) \<subseteq> set (pdist (moved m t sb))" using cs(1) sub(2) by (rule pdist_subset)
  ultimately have "set (pdist cs) \<subseteq> set ?sh"
    using m by (simp add: set_shared_keys pdist_moved)
  then have "card (set (pdist cs)) \<le> card (set ?sh)" by (intro card_mono) auto
  moreover have "card (set (pdist cs)) = 66"
    using cs(2,3) by (simp add: distinct_card length_pdist_12)
  moreover have "card (set ?sh) \<le> length ?sh" by (rule card_length)
  ultimately have "66 \<le> length ?sh" by simp
  with common_distances_ge [of sb ob] show ?thesis by simp
qed

text \<open>An anchor on a common point is accepted.\<close>

lemma anchor_on_common_point:
  assumes m: "m \<in> set ROTATIONS"
    and cs: "distinct cs" "12 \<le> length cs"
    and sub: "set cs \<subseteq> set ob" "set cs \<subseteq> set (moved m t sb)"
    and j: "j < length sb" "vadd (orient m (sb ! j)) t = R"
  shows "list_ex (\<lambda>c. 12 \<le> c) (counts sb ob R j)"
proof -
  from rotation_index [OF m] obtain k where k: "k < 24" "ROTATIONS ! k = m" by blast
  from j(1) have ne: "sb \<noteq> []" by auto
  have "vsub R (orient m (sb ! j)) = t" using j(2) vsub_vadd_cancel by blast
  with k j(1) have "counts sb ob R j ! k = hits ob (moved m t sb)"
    by (simp add: counts_nth)
  moreover have "length cs \<le> hits ob (moved m t sb)" using cs(1) sub by (rule hits_ge)
  ultimately have "12 \<le> counts sb ob R j ! k" using cs(2) by simp
  moreover have "counts sb ob R j ! k \<in> set (counts sb ob R j)"
    using k(1) length_counts [OF ne, of ob R j] by simp
  ultimately show ?thesis by (auto simp: list_ex_iff)
qed

text \<open>At most 11 common points under every orientation and translation: no anchor is accepted.\<close>

lemma no_anchor_below_12:
  assumes d: "distinct sb" "distinct ob"
    and le: "\<forall>m \<in> set ROTATIONS. \<forall>t. card (set ob \<inter> set (moved m t sb)) \<le> 11"
    and i: "i < length sb"
  shows "\<not> list_ex (\<lambda>c. 12 \<le> c) (counts sb ob R i)"
proof
  assume "list_ex (\<lambda>c. 12 \<le> c) (counts sb ob R i)"
  from i have ne: "sb \<noteq> []" by auto
  from \<open>list_ex _ _\<close> obtain k where k: "k < 24" "12 \<le> counts sb ob R i ! k"
    using length_counts [OF ne, of ob R i] by (auto simp: list_ex_iff in_set_conv_nth)
  let ?m = "ROTATIONS ! k" and ?t = "vsub R (orient (ROTATIONS ! k) (sb ! i))"
  have mem: "?m \<in> set ROTATIONS" using k(1) by (rule rotation_nth)
  have "counts sb ob R i ! k = hits ob (moved ?m ?t sb)" using i k(1) by (rule counts_nth)
  also have "\<dots> = card (set ob \<inter> set (moved ?m ?t sb))"
    using d(2) distinct_moved [OF mem d(1)] by (rule hits_card)
  also have "\<dots> \<le> 11" using le mem by blast
  finally show False using k(2) by simp
qed

text \<open>
  C6, as the code has it. The iteration orders are arbitrary. First, let the two clouds
  have twelve points in common when \<open>self\<close> is turned by a table entry and translated,
  with 66 different distances among the twelve. Then the pre-filter passes, a reference
  point and anchors are picked, and the pair is accepted if the reference point is a
  common point whose counterpart in \<open>self\<close> is one of the anchors. Second, let the
  clouds have no repeated points and at most 11 points in common under every table
  entry and translation. Then the pair is rejected.
\<close>

theorem matcher_thresholds:
  assumes "iterates key_iter" "iterates idx_iter"
  shows "(m \<in> set ROTATIONS \<longrightarrow> distinct cs \<longrightarrow> length cs = 12 \<longrightarrow> distinct (pdist cs) \<longrightarrow>
          set cs \<subseteq> set (beacons other) \<longrightarrow> set cs \<subseteq> set (moved m t (beacons self)) \<longrightarrow>
            66 \<le> common_of self other
            \<and> (\<exists>R anchors. reference_of key_iter idx_iter self other = Inr (R, anchors)
                 \<and> ((\<exists>j \<in> set anchors. vadd (orient m (beacons self ! j)) t = R) \<longrightarrow>
                      (\<exists>r. scanner_and key_iter idx_iter self other = Inr (Some r)))))
         \<and> (distinct (beacons self) \<longrightarrow> distinct (beacons other) \<longrightarrow>
            (\<forall>m' \<in> set ROTATIONS. \<forall>t'.
                card (set (beacons other) \<inter> set (moved m' t' (beacons self))) \<le> 11) \<longrightarrow>
            scanner_and key_iter idx_iter self other = Inr None)"
proof (intro conjI impI)
  let ?sb = "beacons self" and ?ob = "beacons other"
  assume m: "m \<in> set ROTATIONS" and cs: "distinct cs" "length cs = 12" "distinct (pdist cs)"
    and sub: "set cs \<subseteq> set ?ob" "set cs \<subseteq> set (moved m t ?sb)"
  show pre: "66 \<le> common_of self other" using m cs sub by (rule twelve_common_pass)
  then have "shared_of self other \<noteq> []" by (rule shared_keys_nonempty)
  from pick_reference_iterates [OF assms this] obtain R anchors where
    pick: "reference_of key_iter idx_iter self other = Inr (R, anchors)"
    and rng: "\<forall>i \<in> set anchors. i < length ?sb" by blast
  have "\<exists>r. scanner_and key_iter idx_iter self other = Inr (Some r)"
    if "\<exists>j \<in> set anchors. vadd (orient m (?sb ! j)) t = R"
  proof -
    from that obtain j where j: "j \<in> set anchors" "vadd (orient m (?sb ! j)) t = R" by blast
    with rng have "j < length ?sb" by simp
    with m cs(1) sub j(2) have "list_ex (\<lambda>c. 12 \<le> c) (counts ?sb ?ob R j)"
      by (intro anchor_on_common_point [of m cs]) (simp_all add: cs(2))
    with j(1) show ?thesis
      unfolding scanner_and_unfold [OF pre pick]
        anchors_loop_accepts(1) [OF pick_reference_member [OF pick] rng]
      by blast
  qed
  with pick show "\<exists>R anchors. reference_of key_iter idx_iter self other = Inr (R, anchors)
       \<and> ((\<exists>j \<in> set anchors. vadd (orient m (?sb ! j)) t = R) \<longrightarrow>
            (\<exists>r. scanner_and key_iter idx_iter self other = Inr (Some r)))"
    by blast
next
  let ?sb = "beacons self" and ?ob = "beacons other"
  assume d: "distinct ?sb" "distinct ?ob"
    and le: "\<forall>m' \<in> set ROTATIONS. \<forall>t'. card (set ?ob \<inter> set (moved m' t' ?sb)) \<le> 11"
  show "scanner_and key_iter idx_iter self other = Inr None"
  proof (cases "66 \<le> common_of self other")
    case False
    then show ?thesis by (simp add: scanner_and_below)
  next
    case True
    then have "shared_of self other \<noteq> []" by (rule shared_keys_nonempty)
    from pick_reference_iterates [OF assms this] obtain R anchors where
      pick: "reference_of key_iter idx_iter self other = Inr (R, anchors)"
      and rng: "\<forall>i \<in> set anchors. i < length ?sb" by blast
    have "\<forall>i \<in> set anchors. \<not> list_ex (\<lambda>c. 12 \<le> c) (counts ?sb ?ob R i)"
      using rng no_anchor_below_12 [OF d le] by blast
    then show ?thesis
      unfolding scanner_and_unfold [OF True pick]
        anchors_loop_accepts(2) [OF pick_reference_member [OF pick] rng] .
  qed
qed

lemma b_moved:
  "moved (ROTATIONS ! 4) (20, - 7, 3) cloud_b
   = [(8, 0, 1), (9, 0, 0), (5, 0, 2), (9, 6, 3), (2, 0, 6), (0, 5, 5),
      (5, 2, 4), (8, 9, 1), (0, 8, 8), (3, 0, 8), (3, 8, 1), (9, 8, 0)]"
  by code_simp

lemma b_anchor: "vadd (orient (ROTATIONS ! 4) (cloud_b ! Suc 0)) (20, - 7, 3) = (9, 0, 0)"
  by code_simp

lemma eleven_points: "distinct (butlast cloud_a) \<and> length (butlast cloud_a) = 11"
  by code_simp

theorem matcher_thresholds_witness:
  "ROTATIONS ! 4 \<in> set ROTATIONS
   \<and> distinct cloud_a \<and> length cloud_a = 12 \<and> distinct (pdist cloud_a)
   \<and> set cloud_a \<subseteq> set (beacons (from_lines cloud_a))
   \<and> set cloud_a \<subseteq> set (moved (ROTATIONS ! 4) (20, - 7, 3) (beacons (from_lines cloud_b)))
   \<and> 66 \<le> common_of (from_lines cloud_b) (from_lines cloud_a)
   \<and> reference_of id id (from_lines cloud_b) (from_lines cloud_a) = Inr ((9, 0, 0), [0, 1])
   \<and> vadd (orient (ROTATIONS ! 4) (beacons (from_lines cloud_b) ! 1)) (20, - 7, 3) = (9, 0, 0)
   \<and> (\<exists>r. scanner_and id id (from_lines cloud_b) (from_lines cloud_a) = Inr (Some r))
   \<and> distinct (butlast cloud_a) \<and> length (butlast cloud_a) = 11
   \<and> scanner_and id id (from_lines (butlast cloud_a)) (from_lines (butlast cloud_a)) = Inr None"
proof -
  have mem: "ROTATIONS ! 4 \<in> set ROTATIONS" by (rule rotation_nth) simp
  have sub1: "set cloud_a \<subseteq> set (beacons (from_lines cloud_a))"
    by (simp add: from_lines_def)
  have sub2: "set cloud_a \<subseteq> set (moved (ROTATIONS ! 4) (20, - 7, 3) (beacons (from_lines cloud_b)))"
    by (simp add: from_lines_def b_moved) (simp add: cloud_a_def)
  have anchor: "vadd (orient (ROTATIONS ! 4) (beacons (from_lines cloud_b) ! 1)) (20, - 7, 3) = (9, 0, 0)"
    by (simp add: from_lines_def b_anchor)
  have pick: "reference_of id id (from_lines cloud_b) (from_lines cloud_a) = Inr ((9, 0, 0), [0, 1])"
    by (simp add: from_lines_def b_a_pick)
  note first = matcher_thresholds [OF iterates_id iterates_id, THEN conjunct1, rule_format,
      OF mem conjunct1 [OF a_distinct] conjunct2 [OF a_distinct] conjunct1 [OF a_pdist_distinct]
         sub1 sub2]
  from first have pre: "66 \<le> common_of (from_lines cloud_b) (from_lines cloud_a)"
    by (rule conjunct1)
  from first pick anchor
  have acc: "\<exists>r. scanner_and id id (from_lines cloud_b) (from_lines cloud_a) = Inr (Some r)"
    by auto
  let ?s = "from_lines (butlast cloud_a)"
  have d: "distinct (beacons ?s)" and len: "length (beacons ?s) = 11"
    using eleven_points by (simp_all add: from_lines_def)
  have few: "card (set (beacons ?s) \<inter> set (moved m' t' (beacons ?s))) \<le> 11" for m' t'
  proof -
    have "card (set (beacons ?s) \<inter> set (moved m' t' (beacons ?s))) \<le> card (set (beacons ?s))"
      by (intro card_mono) auto
    also have "\<dots> \<le> length (beacons ?s)" by (rule card_length)
    finally show ?thesis using len by simp
  qed
  note second = matcher_thresholds [OF iterates_id iterates_id, THEN conjunct2, rule_format,
      OF d d few]
  from mem a_distinct a_pdist_distinct sub1 sub2 pre pick anchor acc eleven_points second
  show ?thesis by simp
qed

section \<open>The summary\<close>

lemma cityblock_triple: "cityblock (a, b, c) (d, e, f) = \<bar>a - d\<bar> + \<bar>b - e\<bar> + \<bar>c - f\<bar>"
  by (simp add: cityblock_def vsub_def)

text \<open>
  C8. \<open>positioned_beacons\<close> collects the rows of every placed cloud in one set of
  integer triples: a triple is in the set exactly when it is a row of some placed
  cloud, and a point that two clouds hold is there once, so the length of the set is
  the number of different points. For two or more placed scanners \<open>max_distance\<close>
  returns the greatest value of \<open>|a - d| + |b - e| + |c - f|\<close> over the pairs of
  positions \<open>(a, b, c)\<close> and \<open>(d, e, f)\<close> of two different scanners of the list.
\<close>

theorem summary_results:
  "(positioned_scanners key_iter idx_iter bm = Some (Inr placed) \<longrightarrow>
      positioned_beacons key_iter idx_iter bm = Some (Inr (beacon_set placed)))
   \<and> (\<forall>p. p \<in> beacon_set placed \<longleftrightarrow> (\<exists>s \<in> set placed. p \<in> set (beacons s)))
   \<and> card (beacon_set placed) = card (\<Union>s \<in> set placed. set (beacons s))
   \<and> card (beacon_set [s1, s2]) + card (set (beacons s1) \<inter> set (beacons s2))
       = card (set (beacons s1)) + card (set (beacons s2))
   \<and> (2 \<le> length placed \<longrightarrow>
        max_distance placed
        = Inr (Max {\<bar>a - d\<bar> + \<bar>b - e\<bar> + \<bar>c - f\<bar> | i j a b c d e f.
                    i < j \<and> j < length placed
                    \<and> position (placed ! i) = (a, b, c) \<and> position (placed ! j) = (d, e, f)}))"
proof -
  have u: "beacon_set placed = (\<Union>s \<in> set placed. set (beacons s))"
    by (auto simp: beacon_set_def)
  have "beacon_set [s1, s2] = set (beacons s1) \<union> set (beacons s2)"
    by (simp add: beacon_set_def)
  then have two: "card (beacon_set [s1, s2]) + card (set (beacons s1) \<inter> set (beacons s2))
       = card (set (beacons s1)) + card (set (beacons s2))"
    using card_Un_Int [of "set (beacons s1)" "set (beacons s2)"] by simp
  have sets: "{cityblock (position (placed ! i)) (position (placed ! j)) | i j.
                    i < j \<and> j < length placed}
      = {\<bar>a - d\<bar> + \<bar>b - e\<bar> + \<bar>c - f\<bar> | i j a b c d e f.
                    i < j \<and> j < length placed
                    \<and> position (placed ! i) = (a, b, c) \<and> position (placed ! j) = (d, e, f)}"
    (is "?L = ?R")
  proof (rule set_eqI, rule iffI)
    fix v assume "v \<in> ?L"
    then obtain i j where ij: "i < j" "j < length placed"
      and v: "v = cityblock (position (placed ! i)) (position (placed ! j))" by blast
    obtain a b c where p: "position (placed ! i) = (a, b, c)" by (cases "position (placed ! i)")
    obtain d e f where q: "position (placed ! j) = (d, e, f)" by (cases "position (placed ! j)")
    from v p q have "v = \<bar>a - d\<bar> + \<bar>b - e\<bar> + \<bar>c - f\<bar>" by (simp add: cityblock_triple)
    with ij p q show "v \<in> ?R" by blast
  next
    fix v assume "v \<in> ?R"
    then obtain i j a b c d e f where ij: "i < j" "j < length placed"
      and p: "position (placed ! i) = (a, b, c)" and q: "position (placed ! j) = (d, e, f)"
      and v: "v = \<bar>a - d\<bar> + \<bar>b - e\<bar> + \<bar>c - f\<bar>" by blast
    from v p q have "v = cityblock (position (placed ! i)) (position (placed ! j))"
      by (simp add: cityblock_triple)
    with ij show "v \<in> ?L" by blast
  qed
  have md: "2 \<le> length placed \<longrightarrow> max_distance placed = Inr (Max ?R)"
  proof
    assume two: "2 \<le> length placed"
    from two have ne: "pdist_cityblock (map position placed) \<noteq> []"
      by (simp add: pdist_cityblock_def combinations2_nonempty)
    from two have "placed \<noteq> []" by auto
    with ne have "max_distance placed = Inr (Max ?L)"
      by (simp add: max_distance_def array_max_Max set_pdist_cityblock)
    then show "max_distance placed = Inr (Max ?R)" by (simp only: sets)
  qed
  have pb: "positioned_scanners key_iter idx_iter bm = Some (Inr placed) \<longrightarrow>
      positioned_beacons key_iter idx_iter bm = Some (Inr (beacon_set placed))"
    by (simp add: positioned_beacons_def)
  have mem: "\<forall>p. p \<in> beacon_set placed \<longleftrightarrow> (\<exists>s \<in> set placed. p \<in> set (beacons s))"
    by (simp add: u)
  have cu: "card (beacon_set placed) = card (\<Union>s \<in> set placed. set (beacons s))"
    by (simp only: u)
  from pb mem cu two md show ?thesis by (intro conjI)
qed

theorem summary_results_witness:
  "positioned_scanners id id (from_text [cloud_a, cloud_b])
     = Some (Inr [from_lines cloud_a,
                  \<lparr>beacons = [(8, 0, 1), (9, 0, 0), (5, 0, 2), (9, 6, 3), (2, 0, 6), (0, 5, 5),
                               (5, 2, 4), (8, 9, 1), (0, 8, 8), (3, 0, 8), (3, 8, 1), (9, 8, 0)],
                    position = (20, - 7, 3)\<rparr>])
   \<and> positioned_beacons id id (from_text [cloud_a, cloud_b]) = Some (Inr (set cloud_a))
   \<and> card (set cloud_a) = 12
   \<and> 2 \<le> length [from_lines cloud_a,
                  \<lparr>beacons = [(8, 0, 1), (9, 0, 0), (5, 0, 2), (9, 6, 3), (2, 0, 6), (0, 5, 5),
                               (5, 2, 4), (8, 9, 1), (0, 8, 8), (3, 0, 8), (3, 8, 1), (9, 8, 0)],
                    position = (20, - 7, 3)\<rparr>]
   \<and> max_distance [from_lines cloud_a,
                  \<lparr>beacons = [(8, 0, 1), (9, 0, 0), (5, 0, 2), (9, 6, 3), (2, 0, 6), (0, 5, 5),
                               (5, 2, 4), (8, 9, 1), (0, 8, 8), (3, 0, 8), (3, 8, 1), (9, 8, 0)],
                    position = (20, - 7, 3)\<rparr>] = Inr 30
   \<and> max_distance [\<lparr>beacons = [], position = (0, 0, 0)\<rparr>, \<lparr>beacons = [], position = (3, - 4, 5)\<rparr>,
                    \<lparr>beacons = [], position = (1, 1, 1)\<rparr>] = Inr 12"
proof -
  let ?b = "\<lparr>beacons = [(8, 0, 1), (9, 0, 0), (5, 0, 2), (9, 6, 3), (2, 0, 6), (0, 5, 5),
                               (5, 2, 4), (8, 9, 1), (0, 8, 8), (3, 0, 8), (3, 8, 1), (9, 8, 0)],
                    position = (20, - 7, 3)\<rparr>"
  let ?placed = "[from_lines cloud_a, ?b]"
  note inst = summary_results [of id id "from_text [cloud_a, cloud_b]" ?placed]
  from inst a_b_run
  have pb: "positioned_beacons id id (from_text [cloud_a, cloud_b]) = Some (Inr (beacon_set ?placed))"
    by blast
  have bs: "beacon_set ?placed = set cloud_a"
    by (auto simp: beacon_set_def from_lines_def cloud_a_def)
  have c: "card (set cloud_a) = 12"
    using a_distinct by (simp add: distinct_card cloud_a_def)
  have m1: "max_distance ?placed = Inr 30" by code_simp
  have m2: "max_distance [\<lparr>beacons = [], position = (0, 0, 0)\<rparr>, \<lparr>beacons = [], position = (3, - 4, 5)\<rparr>,
                    \<lparr>beacons = [], position = (1, 1, 1)\<rparr>] = Inr 12" by code_simp
  from a_b_run pb bs c m1 m2 show ?thesis by simp
qed

end
